theory Spec2Isabelle
  imports Main "HOL-Library.Word"
begin

unbundle bit_operations_syntax

section \<open>Bytes, fixed-width integers and Go strings\<close>

type_synonym u8 = "8 word"
type_synonym u16 = "16 word"
type_synonym u32 = "32 word"

text \<open>Go's \<open>rune\<close> is an \<open>int32\<close> code point. A Go string is modelled as the sequence of
  code points it encodes.\<close>

type_synonym rune = "32 word"
type_synonym gostring = "rune list"

text \<open>\<open>binary.LittleEndian.Uint16\<close> and \<open>binary.LittleEndian.Uint32\<close> on the first bytes of
  a slice. The callers check the length before they read.\<close>

definition le16 :: "u8 list \<Rightarrow> u16" where
  "le16 b = ucast (b ! 0) OR push_bit 8 (ucast (b ! 1))"

definition le32 :: "u8 list \<Rightarrow> u32" where
  "le32 b = ucast (b ! 0) OR push_bit 8 (ucast (b ! 1))
            OR push_bit 16 (ucast (b ! 2)) OR push_bit 24 (ucast (b ! 3))"

section \<open>Records (internal/hwpv5/record.go)\<close>

record recHeader =
  TagID :: u16
  Level :: u16
  Size :: u32

text \<open>The typed elements of paragraph text; each carries the originating code.\<close>

datatype ParaTextElement =
    ParaTextString u16 gostring
  | ParaTextSectionColDef u16
  | ParaTextFieldStart u16
  | ParaTextFieldEnd u16
  | ParaTextTitleMark u16
  | ParaTextTab u16
  | ParaTextLineBreak u16
  | ParaTextGsoTable u16
  | ParaTextParaBreak u16
  | ParaTextHiddenComment u16
  | ParaTextHeaderFooter u16
  | ParaTextFootnoteEndnote u16
  | ParaTextAutoNumber u16
  | ParaTextPageControl u16
  | ParaTextBookmarkIndex u16
  | ParaTextAddTextOverlap u16
  | ParaTextHyphen u16
  | ParaTextBundleSpace u16
  | ParaTextFixedSpace u16

record ListHeader =
  lh_hdr :: recHeader
  IsCell :: bool
  ParaCount :: u16
  Property :: u32
  ColIndex :: u16
  RowIndex :: u16
  ColSpan :: u16
  RowSpan :: u16

text \<open>The record node types. \<open>RecParaHeader\<close>, \<open>RecParaCharShape\<close> and \<open>RecParaLineSeg\<close>
  are header-only types that the assembly state machine tells apart. The other header-only
  types of record.go (RecParaRangeTag, RecPageDef, ..., RecShapeComponentUnknown), which no
  consumer distinguishes and whose Go type is fixed by \<open>TagID\<close>, are the one constructor
  \<open>RecScaffold\<close>. \<open>ParaCount\<close> is Go's \<open>int16\<close>, kept as its 16 bits.\<close>

datatype Rec =
    RecParaHeader recHeader
  | RecParaText recHeader "ParaTextElement list"
  | RecParaCharShape recHeader
  | RecParaLineSeg recHeader
  | RecCtrlHeader recHeader u32 "u8 list"
  | RecListHeader ListHeader
  | RecTable recHeader "u8 list" u16 u16
  | RecScaffold recHeader
  | RecUnknown recHeader "u8 list"

fun hdr_of :: "Rec \<Rightarrow> recHeader" where
  "hdr_of (RecParaHeader b) = b"
| "hdr_of (RecParaText b els) = b"
| "hdr_of (RecParaCharShape b) = b"
| "hdr_of (RecParaLineSeg b) = b"
| "hdr_of (RecCtrlHeader b cid d) = b"
| "hdr_of (RecListHeader r) = lh_hdr r"
| "hdr_of (RecTable b d rc cc) = b"
| "hdr_of (RecScaffold b) = b"
| "hdr_of (RecUnknown b d) = b"

definition Tag :: "Rec \<Rightarrow> u16" where "Tag r = TagID (hdr_of r)"
definition Lvl :: "Rec \<Rightarrow> u16" where "Lvl r = Level (hdr_of r)"
definition Len :: "Rec \<Rightarrow> u32" where "Len r = Size (hdr_of r)"

subsection \<open>decodeListHeaderRecord\<close>

text \<open>\<open>data[7:33]\<close> is \<open>take 26 (drop 7 data)\<close>; it is taken only when \<open>len(data) >= 33\<close>.\<close>

definition decodeListHeaderRecord :: "recHeader \<Rightarrow> u8 list \<Rightarrow> ListHeader" where
  "decodeListHeaderRecord b data =
    (let rec0 = \<lparr>lh_hdr = b, IsCell = False, ParaCount = 0, Property = 0,
                  ColIndex = 0, RowIndex = 0, ColSpan = 0, RowSpan = 0\<rparr>;
         rec1 = (if 6 \<le> length data
                 then rec0\<lparr>ParaCount := le16 data, Property := le32 (drop 2 data)\<rparr>
                 else rec0)
     in if 33 \<le> length data
        then (let rec2 = rec1\<lparr>IsCell := True\<rparr>;
                  cellData = take 26 (drop 7 data)
              in if 8 \<le> length cellData
                 then (let rec3 = rec2\<lparr>ColIndex := ucast (cellData ! 1),
                                         RowIndex := ucast (cellData ! 3),
                                         ColSpan := ucast (cellData ! 5),
                                         RowSpan := ucast (cellData ! 7)\<rparr>;
                           rec4 = (if ColSpan rec3 = 0 then rec3\<lparr>ColSpan := 1\<rparr> else rec3)
                       in if RowSpan rec4 = 0 then rec4\<lparr>RowSpan := 1\<rparr> else rec4)
                 else rec2)
        else rec1)"

section \<open>List-header records\<close>

lemma ucast_u8_u16_eq_0: "(ucast (x :: u8) :: u16) = 0 \<longleftrightarrow> x = 0"
  by transfer simp

text \<open>C6. For every list-header payload: the paragraph count is the little-endian 16-bit value
  at offset 0 and the property field the little-endian 32-bit value at offset 2 (read when the
  payload has that 6-byte head, zero otherwise); the record is flagged as a cell if and only if
  the payload has at least 33 bytes; a flagged record takes its column index, row index, column
  span and row span from the single bytes at offsets 1, 3, 5 and 7 of the cell-properties block
  \<open>data[7:33]\<close>, a zero span replaced by 1; an unflagged record has none of them set.\<close>

theorem decodeListHeaderRecord_cell_iff:
  "(IsCell (decodeListHeaderRecord b data) \<longleftrightarrow> 33 \<le> length data) \<and>
   lh_hdr (decodeListHeaderRecord b data) = b \<and>
   ParaCount (decodeListHeaderRecord b data) = (if 6 \<le> length data then le16 (take 2 data) else 0) \<and>
   Property (decodeListHeaderRecord b data)
     = (if 6 \<le> length data then le32 (take 4 (drop 2 data)) else 0) \<and>
   ColIndex (decodeListHeaderRecord b data)
     = (if 33 \<le> length data then ucast (take 26 (drop 7 data) ! 1) else 0) \<and>
   RowIndex (decodeListHeaderRecord b data)
     = (if 33 \<le> length data then ucast (take 26 (drop 7 data) ! 3) else 0) \<and>
   ColSpan (decodeListHeaderRecord b data)
     = (if 33 \<le> length data
        then (if take 26 (drop 7 data) ! 5 = 0 then 1 else ucast (take 26 (drop 7 data) ! 5))
        else 0) \<and>
   RowSpan (decodeListHeaderRecord b data)
     = (if 33 \<le> length data
        then (if take 26 (drop 7 data) ! 7 = 0 then 1 else ucast (take 26 (drop 7 data) ! 7))
        else 0)"
  by (simp add: decodeListHeaderRecord_def Let_def le16_def le32_def ucast_u8_u16_eq_0)

section \<open>Errors\<close>

text \<open>Go error values: the two sentinels of package io, \<open>errors.New\<close> with its message, and
  \<open>fmt.Errorf("...: %w", err)\<close> wrapping an error.\<close>

datatype error =
    EOF
  | ErrUnexpectedEOF
  | ErrNew string
  | ErrWrap string error

section \<open>Key derivation (internal/hwpv5/crypto.go)\<close>

text \<open>\<open>msvcRand.rand\<close>: the draw and the new state.\<close>

definition rand :: "u32 \<Rightarrow> u32 \<times> u32" where
  "rand state = (let state' = state * 214013 + 2531011
                 in (drop_bit 16 state' AND 0x7FFF, state'))"

text \<open>The inner loop \<open>for j := 0; j < c && i < 256; j++\<close> of \<open>deriveKey\<close>, returning the array
  and the index \<open>i\<close>.\<close>

function fill_run :: "u8 list \<Rightarrow> nat \<Rightarrow> u8 \<Rightarrow> nat \<Rightarrow> nat \<Rightarrow> u8 list \<times> nat" where
  "fill_run randomArray i v c j =
     (if j < c \<and> i < 256 then fill_run (randomArray[i := v]) (i + 1) v c (j + 1)
      else (randomArray, i))"
  by pat_completeness auto
termination
  by (relation "measure (\<lambda>(randomArray, i, v, c, j). c - j)") auto

declare fill_run.simps [simp del]

text \<open>\<open>v := byte(val & 0xFF)\<close> and \<open>c := int((cnt & 0x0F) + 1)\<close>.\<close>

definition run_byte :: "u32 \<Rightarrow> u8" where
  "run_byte val = ucast (val AND 0xFF)"

definition run_count :: "u32 \<Rightarrow> nat" where
  "run_count cnt = unat ((cnt AND 0x0F) + 1)"

lemma run_count_eq: "run_count cnt = unat (cnt AND 0x0F) + 1"
proof -
  have "unat (cnt AND 0x0F) \<le> unat (0x0F :: u32)"
    by (rule word_and_le1 [THEN word_le_nat_alt [THEN iffD1]])
  then have "unat (cnt AND 0x0F) + unat (1 :: u32) < 2 ^ 32" by simp
  then show ?thesis
    unfolding run_count_def by (simp add: unat_word_ariths)
qed

lemma run_count_pos: "0 < run_count cnt"
  by (simp add: run_count_eq)

lemma fill_run_snd: "i \<le> 256 \<Longrightarrow> snd (fill_run a i v c j) = i + min (c - j) (256 - i)"
proof (induction a i v c j rule: fill_run.induct)
  case (1 a i v c j)
  show ?case
  proof (cases "j < c \<and> i < 256")
    case True
    then show ?thesis using "1" by (subst fill_run.simps) (auto simp: min_def)
  next
    case False
    then show ?thesis using "1.prems" by (subst fill_run.simps) (auto simp: min_def)
  qed
qed

lemma fill_run_progress: "i < 256 \<Longrightarrow> 0 < c \<Longrightarrow> i < snd (fill_run a i v c 0)"
  by (simp add: fill_run_snd)

text \<open>The outer loop \<open>for i := 0; i < 256;\<close>. It terminates because every iteration writes at
  least one byte.\<close>

function fill_loop :: "u8 list \<Rightarrow> nat \<Rightarrow> u32 \<Rightarrow> u8 list" where
  "fill_loop randomArray i state =
     (if i < 256
      then (let (val, state1) = rand state;
                (cnt, state2) = rand state1;
                v = run_byte val;
                c = run_count cnt;
                (randomArray', i') = fill_run randomArray i v c 0
            in fill_loop randomArray' i' state2)
      else randomArray)"
  by pat_completeness auto
termination
proof (relation "measure (\<lambda>(randomArray, i, state). 256 - i)", goal_cases)
  case 1
  show ?case by simp
next
  case (2 randomArray i state x val state1 x' cnt state2 v c x'' randomArray' i')
  from "2" have "i' = snd (fill_run randomArray i (run_byte val) (run_count cnt) 0)"
    by (metis snd_conv)
  then have "i < i'"
    using fill_run_progress [OF "2"(1) run_count_pos, of randomArray "run_byte val" cnt] by simp
  with "2"(1) show ?case by simp
qed

declare fill_loop.simps [simp del]

definition deriveKey :: "u8 list \<Rightarrow> error + u8 list" where
  "deriveKey distData =
     (if length distData \<noteq> 256 then Inl (ErrNew ''invalid distribution data size'')
      else (let seed = le32 (take 4 distData);
                randomArray = fill_loop (replicate 256 0) 0 seed;
                xorData = map (\<lambda>i. (distData ! i) XOR (randomArray ! i)) [0..<256];
                offset = unat ((seed AND 0x0F) + 4)
            in if offset + 16 > 256 then Inl (ErrNew ''invalid key offset'')
               else Inr (take 16 (drop offset xorData))))"

subsection \<open>Key derivation as the specification words it\<close>

text \<open>The generator: \<open>state = state*214013 + 2531011 (mod 2^32)\<close>, each draw returning
  \<open>(state >> 16) & 0x7FFF\<close>. \<open>spec_runs n\<close> is the first \<open>n\<close> runs of the pseudorandom fill:
  draw \<open>val\<close>, then \<open>cnt\<close>, and write byte \<open>val & 0xFF\<close> \<open>(cnt & 0x0F) + 1\<close> times. Every run
  has at least one byte, so 256 runs cover the 256-byte array, which truncates the last run.
  \<open>spec_key\<close> XORs that array with the input and takes 16 bytes at \<open>(seed & 0x0F) + 4\<close>.\<close>

definition lcg_next :: "u32 \<Rightarrow> u32" where
  "lcg_next state = state * 214013 + 2531011"

definition lcg_draw :: "u32 \<Rightarrow> u32" where
  "lcg_draw state = drop_bit 16 state AND 0x7FFF"

fun spec_runs :: "nat \<Rightarrow> u32 \<Rightarrow> u8 list" where
  "spec_runs 0 state = []"
| "spec_runs (Suc n) state =
     (let s1 = lcg_next state; val = lcg_draw s1;
          s2 = lcg_next s1; cnt = lcg_draw s2
      in replicate (unat (cnt AND 0x0F) + 1) (ucast (val AND 0xFF)) @ spec_runs n s2)"

definition spec_key :: "u8 list \<Rightarrow> u8 list" where
  "spec_key distData =
     (let seed = le32 (take 4 distData);
          randomArray = take 256 (spec_runs 256 seed);
          xorData = map2 (XOR) randomArray distData;
          offset = unat (seed AND 0x0F) + 4
      in take 16 (drop offset xorData))"

lemma fill_run_fst:
  "i \<le> 256 \<Longrightarrow> length a = 256 \<Longrightarrow>
   fst (fill_run a i v c j)
     = take i a @ replicate (min (c - j) (256 - i)) v @ drop (i + min (c - j) (256 - i)) a"
proof (induction a i v c j rule: fill_run.induct)
  case (1 a i v c j)
  show ?case
  proof (cases "j < c \<and> i < 256")
    case True
    then have m: "min (c - j) (256 - i) = Suc (min (c - (j + 1)) (256 - (i + 1)))"
      by (auto simp: min_def)
    have "fst (fill_run a i v c j) = fst (fill_run (a[i := v]) (i + 1) v c (j + 1))"
      using True by (subst fill_run.simps) simp
    also have "\<dots> = take (i + 1) (a[i := v]) @ replicate (min (c - (j + 1)) (256 - (i + 1))) v
         @ drop (i + 1 + min (c - (j + 1)) (256 - (i + 1))) (a[i := v])"
      using "1.IH" [OF True] True "1.prems" by simp
    also have "take (i + 1) (a[i := v]) = take i a @ [v]"
      using True "1.prems" by (simp add: take_Suc_conv_app_nth)
    finally show ?thesis
      using True "1.prems" by (simp add: m replicate_app_Cons_same)
  next
    case False
    then show ?thesis using "1.prems" by (subst fill_run.simps) (auto simp: min_def)
  qed
qed

lemma fill_run_length: "length (fst (fill_run a i v c j)) = length a"
proof (induction a i v c j rule: fill_run.induct)
  case (1 a i v c j)
  show ?case
    by (subst fill_run.simps) (use "1" in auto)
qed

lemma rand_eq: "rand st = (lcg_draw (lcg_next st), lcg_next st)"
  by (simp add: rand_def lcg_draw_def lcg_next_def Let_def)

lemma fill_loop_spec:
  "length a = 256 \<Longrightarrow> i \<le> 256 \<Longrightarrow> 256 - i \<le> n \<Longrightarrow>
   fill_loop a i st = take i a @ take (256 - i) (spec_runs n st)"
proof (induction a i st arbitrary: n rule: fill_loop.induct)
  case (1 a i st)
  show ?case
  proof (cases "i < 256")
    case False
    with "1.prems" show ?thesis by (subst fill_loop.simps) simp
  next
    case True
    define s1 where "s1 = lcg_next st"
    define s2 where "s2 = lcg_next s1"
    define v where "v = run_byte (lcg_draw s1)"
    define c where "c = run_count (lcg_draw s2)"
    define k where "k = min c (256 - i)"
    define a' where "a' = fst (fill_run a i v c 0)"
    define i' where "i' = snd (fill_run a i v c 0)"
    have cpos: "0 < c" by (simp add: c_def run_count_pos)
    have i': "i' = i + k" using True by (simp add: i'_def k_def fill_run_snd)
    have a': "a' = take i a @ replicate k v @ drop (i + k) a"
      using True "1.prems" by (simp add: a'_def k_def fill_run_fst)
    have kpos: "0 < k" using cpos True by (simp add: k_def)
    obtain m where n: "n = Suc m" using "1.prems" True by (cases n) auto
    have step: "fill_loop a i st = fill_loop a' i' s2"
      using True
      by (subst fill_loop.simps)
         (simp add: rand_eq Let_def s1_def s2_def v_def c_def a'_def i'_def split: prod.splits)
    have IH: "fill_loop a' i' s2 = take i' a' @ take (256 - i') (spec_runs m s2)"
    proof (rule "1.IH" [OF True])
      show "(lcg_draw s1, s1) = rand st" by (simp add: rand_eq s1_def)
      show "(lcg_draw s2, s2) = rand s1" by (simp add: rand_eq s2_def)
      show "v = run_byte (lcg_draw s1)" by (simp add: v_def)
      show "c = run_count (lcg_draw s2)" by (simp add: c_def)
      show "(a', i') = fill_run a i v c 0" by (simp add: a'_def i'_def)
      show "length a' = 256" using "1.prems" by (simp add: a'_def fill_run_length)
      show "i' \<le> 256" using True by (simp add: i' k_def)
      show "256 - i' \<le> m" using "1.prems" n kpos i' by simp
    qed simp_all
    have t: "take i' a' = take i a @ replicate k v"
      using "1.prems" True by (simp add: a' i' k_def)
    have sr: "spec_runs n st = replicate c v @ spec_runs m s2"
      by (simp add: n Let_def s1_def s2_def v_def c_def run_byte_def run_count_eq)
    have "take (256 - i) (spec_runs n st) = replicate k v @ take (256 - i') (spec_runs m s2)"
      by (simp add: sr i' k_def min_def)
    with step IH t show ?thesis by simp
  qed
qed

lemma fill_loop_is_spec: "fill_loop (replicate 256 0) 0 seed = take 256 (spec_runs 256 seed)"
  using fill_loop_spec [of "replicate 256 0" 0 256 seed] by simp


lemma key_offset_eq: "unat (((seed :: u32) AND 0x0F) + 4) = unat (seed AND 0x0F) + 4"
proof -
  have "unat (seed AND 0x0F) \<le> unat (0x0F :: u32)"
    by (rule word_and_le1 [THEN word_le_nat_alt [THEN iffD1]])
  then have "unat (seed AND 0x0F) + unat (4 :: u32) < 2 ^ 32" by simp
  then show ?thesis by (simp add: unat_word_ariths)
qed

lemma key_offset_le: "unat (((seed :: u32) AND 0x0F) + 4) \<le> 19"
proof -
  have "unat (seed AND 0x0F) \<le> unat (0x0F :: u32)"
    by (rule word_and_le1 [THEN word_le_nat_alt [THEN iffD1]])
  then show ?thesis by (simp add: key_offset_eq)
qed

lemma xor_loop_map2:
  assumes "length d = 256" "length r = 256"
  shows "map (\<lambda>i. (d ! i) XOR (r ! i)) [0..<256] = map2 (XOR) r (d :: u8 list)"
  using assms by (intro nth_equalityI) (simp_all add: xor.commute)

lemma spec_runs_length_ge: "n \<le> length (spec_runs n st)"
proof (induction n arbitrary: st)
  case 0
  show ?case by simp
next
  case (Suc n)
  have "n \<le> length (spec_runs n (lcg_next (lcg_next st)))" by (rule Suc.IH)
  then show ?case by (simp add: Let_def)
qed

lemma length_spec_array: "length (take 256 (spec_runs 256 seed)) = 256"
  using spec_runs_length_ge [of 256 seed] by simp

lemma deriveKey_eq:
  assumes "length distData = 256"
  shows "deriveKey distData = Inr (spec_key distData)"
proof -
  let ?seed = "le32 (take 4 distData)"
  have off: "\<not> unat ((?seed AND 0x0F) + 4) + 16 > 256"
    using key_offset_le [of ?seed] by simp
  show ?thesis
    using assms off
    by (simp add: deriveKey_def spec_key_def Let_def fill_loop_is_spec
        xor_loop_map2 [OF assms length_spec_array] key_offset_eq)
qed

lemma length_spec_key:
  assumes "length distData = 256"
  shows "length (spec_key distData) = 16"
proof -
  have "unat (le32 (take 4 distData) AND 0x0F) + 4 \<le> 19"
    using key_offset_le [of "le32 (take 4 distData)"] by (simp add: key_offset_eq)
  then show ?thesis
    using assms length_spec_array [of "le32 (take 4 distData)"]
    by (simp add: spec_key_def Let_def)
qed

text \<open>C2. Key derivation is a pure function of its 256-byte input that computes exactly what
  the specification describes: seed from the first four bytes little-endian, the linear
  congruential generator with draws \<open>(state >> 16) & 0x7FFF\<close>, the run-length fill truncated at
  256 bytes, the byte-wise XOR with the input, and the 16 bytes at offset \<open>(seed & 0x0F) + 4\<close>.\<close>

theorem deriveKey_bit_exact:
  "length distData = 256 \<Longrightarrow>
   deriveKey distData = Inr (spec_key distData) \<and> length (spec_key distData) = 16"
  by (simp add: deriveKey_eq length_spec_key)

theorem deriveKey_bit_exact_witness:
  "length (replicate 256 (0 :: u8)) = 256 \<and>
   deriveKey (replicate 256 0) = Inr (spec_key (replicate 256 0)) \<and>
   length (spec_key (replicate 256 0)) = 16"
  using deriveKey_bit_exact [of "replicate 256 0"] by simp

text \<open>C10. Key derivation is total on well-sized input: for every input of exactly 256 bytes
  \<open>deriveKey\<close> returns a 16-byte key; the key offset is at most 19, so the offset plus 16
  never exceeds 256 and the invalid-key-offset branch is not taken; and every iteration of the
  fill loop that starts below 256 advances the index.\<close>

theorem deriveKey_total:
  "length distData = 256 \<Longrightarrow>
   (\<exists>key. deriveKey distData = Inr key \<and> length key = 16) \<and>
   unat ((le32 (take 4 distData) AND 0x0F) + 4) \<le> 19 \<and>
   unat ((le32 (take 4 distData) AND 0x0F) + 4) + 16 \<le> 256 \<and>
   (\<forall>a i val cnt. i < 256 \<longrightarrow> i < snd (fill_run a i (run_byte val) (run_count cnt) 0))"
proof (intro conjI allI impI)
  assume len: "length distData = 256"
  show "\<exists>key. deriveKey distData = Inr key \<and> length key = 16"
    using deriveKey_eq [OF len] length_spec_key [OF len] by blast
  show "unat ((le32 (take 4 distData) AND 0x0F) + 4) \<le> 19"
    by (rule key_offset_le)
  then show "unat ((le32 (take 4 distData) AND 0x0F) + 4) + 16 \<le> 256"
    by simp
next
  fix a i val cnt
  assume "i < (256 :: nat)"
  then show "i < snd (fill_run a i (run_byte val) (run_count cnt) 0)"
    by (rule fill_run_progress [OF _ run_count_pos])
qed

theorem deriveKey_total_witness:
  "length (replicate 256 (0 :: u8)) = 256 \<and>
   (\<exists>key. deriveKey (replicate 256 0) = Inr key \<and> length key = 16) \<and>
   (0 :: nat) < 256 \<and> 0 < snd (fill_run (replicate 256 0) 0 (run_byte 3) (run_count 0) 0)"
  using deriveKey_total [of "replicate 256 0"] by simp

section \<open>Paragraph text (paragraph-text decoder of package hwpv5)\<close>

text \<open>The control codes.\<close>

abbreviation (input) paraTextCodeUnusable :: u16 where "paraTextCodeUnusable \<equiv> 0"
abbreviation (input) paraTextCodeReserved1 :: u16 where "paraTextCodeReserved1 \<equiv> 1"
abbreviation (input) paraTextCodeSectionColDef :: u16 where "paraTextCodeSectionColDef \<equiv> 2"
abbreviation (input) paraTextCodeFieldStart :: u16 where "paraTextCodeFieldStart \<equiv> 3"
abbreviation (input) paraTextCodeFieldEnd :: u16 where "paraTextCodeFieldEnd \<equiv> 4"
abbreviation (input) paraTextCodeReserved5 :: u16 where "paraTextCodeReserved5 \<equiv> 5"
abbreviation (input) paraTextCodeReserved6 :: u16 where "paraTextCodeReserved6 \<equiv> 6"
abbreviation (input) paraTextCodeReserved7 :: u16 where "paraTextCodeReserved7 \<equiv> 7"
abbreviation (input) paraTextCodeTitleMark :: u16 where "paraTextCodeTitleMark \<equiv> 8"
abbreviation (input) paraTextCodeTab :: u16 where "paraTextCodeTab \<equiv> 9"
abbreviation (input) paraTextCodeLineBreak :: u16 where "paraTextCodeLineBreak \<equiv> 10"
abbreviation (input) paraTextCodeGsoTable :: u16 where "paraTextCodeGsoTable \<equiv> 11"
abbreviation (input) paraTextCodeReserved12 :: u16 where "paraTextCodeReserved12 \<equiv> 12"
abbreviation (input) paraTextCodeParaBreak :: u16 where "paraTextCodeParaBreak \<equiv> 13"
abbreviation (input) paraTextCodeReserved14 :: u16 where "paraTextCodeReserved14 \<equiv> 14"
abbreviation (input) paraTextCodeHiddenComment :: u16 where "paraTextCodeHiddenComment \<equiv> 15"
abbreviation (input) paraTextCodeHeaderFooter :: u16 where "paraTextCodeHeaderFooter \<equiv> 16"
abbreviation (input) paraTextCodeFootnoteEndnote :: u16 where "paraTextCodeFootnoteEndnote \<equiv> 17"
abbreviation (input) paraTextCodeAutoNumber :: u16 where "paraTextCodeAutoNumber \<equiv> 18"
abbreviation (input) paraTextCodeReserved19 :: u16 where "paraTextCodeReserved19 \<equiv> 19"
abbreviation (input) paraTextCodeReserved20 :: u16 where "paraTextCodeReserved20 \<equiv> 20"
abbreviation (input) paraTextCodePageControl :: u16 where "paraTextCodePageControl \<equiv> 21"
abbreviation (input) paraTextCodeBookmarkIndex :: u16 where "paraTextCodeBookmarkIndex \<equiv> 22"
abbreviation (input) paraTextCodeAddTextOverlap :: u16 where "paraTextCodeAddTextOverlap \<equiv> 23"
abbreviation (input) paraTextCodeHyphen :: u16 where "paraTextCodeHyphen \<equiv> 24"
abbreviation (input) paraTextCodeReserved25 :: u16 where "paraTextCodeReserved25 \<equiv> 25"
abbreviation (input) paraTextCodeReserved26 :: u16 where "paraTextCodeReserved26 \<equiv> 26"
abbreviation (input) paraTextCodeReserved27 :: u16 where "paraTextCodeReserved27 \<equiv> 27"
abbreviation (input) paraTextCodeReserved28 :: u16 where "paraTextCodeReserved28 \<equiv> 28"
abbreviation (input) paraTextCodeReserved29 :: u16 where "paraTextCodeReserved29 \<equiv> 29"
abbreviation (input) paraTextCodeBundleSpace :: u16 where "paraTextCodeBundleSpace \<equiv> 30"
abbreviation (input) paraTextCodeFixedSpace :: u16 where "paraTextCodeFixedSpace \<equiv> 31"

text \<open>\<open>string(stringBuffer)\<close> encodes the runes as UTF-8; a surrogate code point is not
  encodable and becomes U+FFFD. \<open>rune(code)\<close> widens the 16-bit unit.\<close>

definition go_string :: "rune list \<Rightarrow> gostring" where
  "go_string rs = map (\<lambda>r. if 0xD800 \<le> r \<and> r \<le> 0xDFFF then 0xFFFD else r) rs"

text \<open>The closure \<open>flushString\<close>: the elements after the flush; the buffer is empty afterwards.\<close>

definition flushString :: "ParaTextElement list \<Rightarrow> rune list \<Rightarrow> ParaTextElement list" where
  "flushString elements stringBuffer =
     (if 0 < length stringBuffer then elements @ [ParaTextString 0 (go_string stringBuffer)]
      else elements)"

text \<open>The \<open>switch code\<close> of \<open>decodeParaTextElements\<close>, for a code below 32: how many bytes
  \<open>skipBytes\<close> is asked to discard, and the elements appended.\<close>

definition ctrl_case :: "u16 \<Rightarrow> nat \<times> ParaTextElement list" where
  "ctrl_case code =
     (if code = paraTextCodeUnusable then (0, [])
      else if code = paraTextCodeReserved1 then (0, [])
      else if code = paraTextCodeSectionColDef then (14, [ParaTextSectionColDef code])
      else if code = paraTextCodeFieldStart then (14, [ParaTextFieldStart code])
      else if code = paraTextCodeFieldEnd then (14, [ParaTextFieldEnd code])
      else if code = paraTextCodeReserved5 \<or> code = paraTextCodeReserved6
              \<or> code = paraTextCodeReserved7 then (14, [])
      else if code = paraTextCodeTitleMark then (14, [ParaTextTitleMark code])
      else if code = paraTextCodeTab then (14, [ParaTextTab code])
      else if code = paraTextCodeLineBreak then (0, [ParaTextLineBreak code])
      else if code = paraTextCodeGsoTable then (14, [ParaTextGsoTable code])
      else if code = paraTextCodeReserved12 then (14, [])
      else if code = paraTextCodeParaBreak then (0, [ParaTextParaBreak code])
      else if code = paraTextCodeReserved14 then (14, [])
      else if code = paraTextCodeHiddenComment then (14, [ParaTextHiddenComment code])
      else if code = paraTextCodeHeaderFooter then (14, [ParaTextHeaderFooter code])
      else if code = paraTextCodeFootnoteEndnote then (14, [ParaTextFootnoteEndnote code])
      else if code = paraTextCodeAutoNumber then (14, [ParaTextAutoNumber code])
      else if code = paraTextCodeReserved19 \<or> code = paraTextCodeReserved20 then (14, [])
      else if code = paraTextCodePageControl then (14, [ParaTextPageControl code])
      else if code = paraTextCodeBookmarkIndex then (14, [ParaTextBookmarkIndex code])
      else if code = paraTextCodeAddTextOverlap then (14, [ParaTextAddTextOverlap code])
      else if code = paraTextCodeHyphen then (0, [ParaTextHyphen code])
      else if code = paraTextCodeReserved25 \<or> code = paraTextCodeReserved26
              \<or> code = paraTextCodeReserved27 \<or> code = paraTextCodeReserved28
              \<or> code = paraTextCodeReserved29 then (0, [])
      else if code = paraTextCodeBundleSpace then (0, [ParaTextBundleSpace code])
      else if code = paraTextCodeFixedSpace then (0, [ParaTextFixedSpace code])
      else (0, []))"

text \<open>The decoding loop over the payload reader. \<open>binary.Read\<close> of a 16-bit unit fails, and
  the loop ends, when fewer than two bytes are left. \<open>skipBytes(14)\<close> is \<open>io.CopyN\<close> to
  \<open>io.Discard\<close>, its error ignored: it discards 14 bytes, or all that is left.\<close>

fun decodeLoop :: "u8 list \<Rightarrow> ParaTextElement list \<Rightarrow> rune list \<Rightarrow> ParaTextElement list" where
  "decodeLoop (b0 # b1 # rest) elements stringBuffer =
     (let code = le16 [b0, b1]
      in if 32 \<le> code then decodeLoop rest elements (stringBuffer @ [ucast code])
         else decodeLoop (drop (fst (ctrl_case code)) rest)
                (flushString elements stringBuffer @ snd (ctrl_case code)) [])"
| "decodeLoop d elements stringBuffer = flushString elements stringBuffer"

definition decodeParaTextElements :: "u8 list \<Rightarrow> ParaTextElement list" where
  "decodeParaTextElements data = decodeLoop data [] []"

section \<open>Paragraph text: properties\<close>

lemma le16_pair: "le16 [b0, b1] = ucast b0 OR push_bit 8 (ucast b1)"
  by (simp add: le16_def)

text \<open>C5 as stated fails: a unit below 32 does not always emit a marker. In the payload
  \<open>41 00 05 00\<close> the unit \<open>0x41\<close> is a literal and the unit 5 is a reserved control code: the
  result is the literal run alone.\<close>

theorem decodeParaText_reserved_counterexample:
  "decodeParaTextElements [0x41, 0, 0x05, 0] = [ParaTextString 0 [0x41]]"
  by (simp add: decodeParaTextElements_def le16_def ctrl_case_def flushString_def go_string_def)

text \<open>C5, amended. For every payload, read as little-endian 16-bit units: a unit of value at
  least 32 is appended to the pending literal run; a unit below 32 first flushes the pending
  run (a literal-run element when the run is not empty) and then does what the table says for
  its code: the named codes 2, 3, 4, 8, 9, 10, 11, 13, 15, 16, 17, 18, 21, 22, 23, 24, 30 and 31
  emit their typed marker carrying the code, the reserved codes 0, 1, 5, 6, 7, 12, 14, 19, 20
  and 25 to 29 emit nothing, and the codes 2 to 9, 11, 12 and 14 to 23 discard the next 14
  bytes (all that is left, when fewer); the end of the payload flushes the pending run.\<close>

theorem decodeParaText_units:
  "(32 \<le> le16 [b0, b1] \<longrightarrow>
      decodeLoop (b0 # b1 # rest) elements stringBuffer
        = decodeLoop rest elements (stringBuffer @ [ucast (le16 [b0, b1])])) \<and>
   (le16 [b0, b1] < 32 \<longrightarrow>
      decodeLoop (b0 # b1 # rest) elements stringBuffer
        = decodeLoop (drop (fst (ctrl_case (le16 [b0, b1]))) rest)
            ((if stringBuffer = [] then elements
              else elements @ [ParaTextString 0 (go_string stringBuffer)])
             @ snd (ctrl_case (le16 [b0, b1]))) []) \<and>
   decodeLoop [] elements stringBuffer
     = (if stringBuffer = [] then elements
        else elements @ [ParaTextString 0 (go_string stringBuffer)]) \<and>
   decodeLoop [b0] elements stringBuffer
     = (if stringBuffer = [] then elements
        else elements @ [ParaTextString 0 (go_string stringBuffer)]) \<and>
   map ctrl_case [0, 1, 2, 3, 4, 5, 6, 7, 8, 9, 10, 11, 12, 13, 14, 15, 16, 17, 18, 19, 20,
                  21, 22, 23, 24, 25, 26, 27, 28, 29, 30, 31]
     = [(0, []),
      (0, []),
      (14, [ParaTextSectionColDef 2]),
      (14, [ParaTextFieldStart 3]),
      (14, [ParaTextFieldEnd 4]),
      (14, []),
      (14, []),
      (14, []),
      (14, [ParaTextTitleMark 8]),
      (14, [ParaTextTab 9]),
      (0, [ParaTextLineBreak 10]),
      (14, [ParaTextGsoTable 11]),
      (14, []),
      (0, [ParaTextParaBreak 13]),
      (14, []),
      (14, [ParaTextHiddenComment 15]),
      (14, [ParaTextHeaderFooter 16]),
      (14, [ParaTextFootnoteEndnote 17]),
      (14, [ParaTextAutoNumber 18]),
      (14, []),
      (14, []),
      (14, [ParaTextPageControl 21]),
      (14, [ParaTextBookmarkIndex 22]),
      (14, [ParaTextAddTextOverlap 23]),
      (0, [ParaTextHyphen 24]),
      (0, []),
      (0, []),
      (0, []),
      (0, []),
      (0, []),
      (0, [ParaTextBundleSpace 30]),
      (0, [ParaTextFixedSpace 31])]"
proof (intro conjI)
  show "map ctrl_case [0, 1, 2, 3, 4, 5, 6, 7, 8, 9, 10, 11, 12, 13, 14, 15, 16, 17, 18, 19, 20,
                  21, 22, 23, 24, 25, 26, 27, 28, 29, 30, 31]
     = [(0, []),
      (0, []),
      (14, [ParaTextSectionColDef 2]),
      (14, [ParaTextFieldStart 3]),
      (14, [ParaTextFieldEnd 4]),
      (14, []),
      (14, []),
      (14, []),
      (14, [ParaTextTitleMark 8]),
      (14, [ParaTextTab 9]),
      (0, [ParaTextLineBreak 10]),
      (14, [ParaTextGsoTable 11]),
      (14, []),
      (0, [ParaTextParaBreak 13]),
      (14, []),
      (14, [ParaTextHiddenComment 15]),
      (14, [ParaTextHeaderFooter 16]),
      (14, [ParaTextFootnoteEndnote 17]),
      (14, [ParaTextAutoNumber 18]),
      (14, []),
      (14, []),
      (14, [ParaTextPageControl 21]),
      (14, [ParaTextBookmarkIndex 22]),
      (14, [ParaTextAddTextOverlap 23]),
      (0, [ParaTextHyphen 24]),
      (0, []),
      (0, []),
      (0, []),
      (0, []),
      (0, []),
      (0, [ParaTextBundleSpace 30]),
      (0, [ParaTextFixedSpace 31])]"
    by (simp add: ctrl_case_def)
qed (auto simp add: flushString_def Let_def)

theorem decodeParaText_units_witness:
  "(32 :: u16) \<le> le16 [0x41, 0] \<and>
   decodeLoop (0x41 # 0 # [9, 0]) [] [] = decodeLoop [9, 0] [] [ucast (le16 [0x41, 0])] \<and>
   le16 [9, 0] < (32 :: u16) \<and>
   decodeLoop (9 # 0 # [1, 2]) [] [0x41]
     = decodeLoop (drop (fst (ctrl_case (le16 [9, 0]))) [1, 2])
         ([ParaTextString 0 (go_string [0x41])] @ snd (ctrl_case (le16 [9, 0]))) []"
  using decodeParaText_units [where ?b0.0 = "0x41" and ?b1.0 = 0 and rest = "[9, 0]"
           and elements = "[]" and stringBuffer = "[]"]
        decodeParaText_units [where ?b0.0 = 9 and ?b1.0 = 0 and rest = "[1, 2]"
           and elements = "[]" and stringBuffer = "[0x41]"]
  by (simp add: le16_pair)

section \<open>Record framing and dispatch (internal/hwpv5/record.go)\<close>

abbreviation (input) recTagBegin :: u16 where "recTagBegin \<equiv> 0x10"
abbreviation (input) recTagParaHeader :: u16 where "recTagParaHeader \<equiv> recTagBegin + 50"
abbreviation (input) recTagParaText :: u16 where "recTagParaText \<equiv> recTagBegin + 51"
abbreviation (input) recTagParaCharShape :: u16 where "recTagParaCharShape \<equiv> recTagBegin + 52"
abbreviation (input) recTagParaLineSeg :: u16 where "recTagParaLineSeg \<equiv> recTagBegin + 53"
abbreviation (input) recTagParaRangeTag :: u16 where "recTagParaRangeTag \<equiv> recTagBegin + 54"
abbreviation (input) recTagCtrlHeader :: u16 where "recTagCtrlHeader \<equiv> recTagBegin + 55"
abbreviation (input) recTagListHeader :: u16 where "recTagListHeader \<equiv> recTagBegin + 56"
abbreviation (input) recTagPageDef :: u16 where "recTagPageDef \<equiv> recTagBegin + 57"
abbreviation (input) recTagFootnoteShape :: u16 where "recTagFootnoteShape \<equiv> recTagBegin + 58"
abbreviation (input) recTagPageBorderFill :: u16 where "recTagPageBorderFill \<equiv> recTagBegin + 59"
abbreviation (input) recTagShapeComponent :: u16 where "recTagShapeComponent \<equiv> recTagBegin + 60"
abbreviation (input) recTagTable :: u16 where "recTagTable \<equiv> recTagBegin + 61"
abbreviation (input) recTagShapeComponentLine :: u16 where "recTagShapeComponentLine \<equiv> recTagBegin + 62"
abbreviation (input) recTagShapeComponentRectangle :: u16 where "recTagShapeComponentRectangle \<equiv> recTagBegin + 63"
abbreviation (input) recTagShapeComponentEllipse :: u16 where "recTagShapeComponentEllipse \<equiv> recTagBegin + 64"
abbreviation (input) recTagShapeComponentArc :: u16 where "recTagShapeComponentArc \<equiv> recTagBegin + 65"
abbreviation (input) recTagShapeComponentPolygon :: u16 where "recTagShapeComponentPolygon \<equiv> recTagBegin + 66"
abbreviation (input) recTagShapeComponentCurve :: u16 where "recTagShapeComponentCurve \<equiv> recTagBegin + 67"
abbreviation (input) recTagShapeComponentOLE :: u16 where "recTagShapeComponentOLE \<equiv> recTagBegin + 68"
abbreviation (input) recTagShapeComponentPicture :: u16 where "recTagShapeComponentPicture \<equiv> recTagBegin + 69"
abbreviation (input) recTagShapeComponentContainer :: u16 where "recTagShapeComponentContainer \<equiv> recTagBegin + 70"
abbreviation (input) recTagCtrlData :: u16 where "recTagCtrlData \<equiv> recTagBegin + 71"
abbreviation (input) recTagEqEdit :: u16 where "recTagEqEdit \<equiv> recTagBegin + 72"
abbreviation (input) recTagShapeComponentTextArt :: u16 where "recTagShapeComponentTextArt \<equiv> recTagBegin + 74"
abbreviation (input) recTagFormObject :: u16 where "recTagFormObject \<equiv> recTagBegin + 75"
abbreviation (input) recTagMemoShape :: u16 where "recTagMemoShape \<equiv> recTagBegin + 76"
abbreviation (input) recTagMemoList :: u16 where "recTagMemoList \<equiv> recTagBegin + 77"
abbreviation (input) recTagChartData :: u16 where "recTagChartData \<equiv> recTagBegin + 79"
abbreviation (input) recTagVideoData :: u16 where "recTagVideoData \<equiv> recTagBegin + 82"
abbreviation (input) recTagShapeComponentUnknown :: u16 where "recTagShapeComponentUnknown \<equiv> recTagBegin + 99"

text \<open>The reader is the sequence of bytes not yet read. \<open>io.ReadFull\<close> for \<open>n\<close> bytes: the
  bytes, or \<open>io.EOF\<close> when nothing is left, or \<open>io.ErrUnexpectedEOF\<close> after a partial
  read, which consumes what was left. Reading zero bytes succeeds.\<close>

definition readFull :: "nat \<Rightarrow> u8 list \<Rightarrow> (error + u8 list) \<times> u8 list" where
  "readFull n r =
     (if n \<le> length r then (Inr (take n r), drop n r)
      else if r = [] then (Inl EOF, [])
      else (Inl ErrUnexpectedEOF, []))"

text \<open>The decoders of the records with a structure.\<close>

definition decodeCtrlHeaderRecord :: "recHeader \<Rightarrow> u8 list \<Rightarrow> Rec" where
  "decodeCtrlHeaderRecord b data =
     RecCtrlHeader b (if 4 \<le> length data then le32 (take 4 data) else 0) data"

definition decodeTableRecord :: "recHeader \<Rightarrow> u8 list \<Rightarrow> Rec" where
  "decodeTableRecord b data =
     (if 8 \<le> length data then RecTable b data (le16 (drop 4 data)) (le16 (drop 6 data))
      else RecTable b data 0 0)"

definition decodeParaTextRecord :: "recHeader \<Rightarrow> u8 list \<Rightarrow> Rec" where
  "decodeParaTextRecord b data = RecParaText b (decodeParaTextElements data)"

text \<open>The tags of the header-only record types that \<open>RecScaffold\<close> stands for.\<close>

definition scaffoldTags :: "u16 list" where
  "scaffoldTags =
     [recTagParaRangeTag, recTagPageDef, recTagFootnoteShape,
      recTagPageBorderFill, recTagShapeComponent, recTagShapeComponentLine,
      recTagShapeComponentRectangle, recTagShapeComponentEllipse, recTagShapeComponentArc,
      recTagShapeComponentPolygon, recTagShapeComponentCurve, recTagShapeComponentOLE,
      recTagShapeComponentPicture, recTagShapeComponentContainer, recTagCtrlData,
      recTagEqEdit, recTagShapeComponentTextArt, recTagFormObject,
      recTagMemoShape, recTagMemoList, recTagChartData,
      recTagVideoData, recTagShapeComponentUnknown]"

text \<open>The first half of \<open>ScanNext\<close>: the header word, the extended size when the inline size
  is \<open>0xfff\<close>, and the payload of exactly \<open>Size\<close> bytes. It returns the header and the
  payload, and the reader after the read.\<close>

definition readFrame :: "u8 list \<Rightarrow> (error + recHeader \<times> u8 list) \<times> u8 list" where
  "readFrame r =
     (case readFull 4 r of
        (Inl err, r1) \<Rightarrow> (Inl err, r1)
      | (Inr hb, r1) \<Rightarrow>
          (let headerRaw = le32 hb;
               base = \<lparr>TagID = ucast (headerRaw AND 0x3ff),
                       Level = ucast (drop_bit 10 headerRaw AND 0x3ff),
                       Size = drop_bit 20 headerRaw AND 0xfff\<rparr>
           in case (if Size base = 0xfff
                    then (case readFull 4 r1 of
                            (Inl err, r2) \<Rightarrow> (Inl (ErrWrap ''read extended size'' err), r2)
                          | (Inr sb, r2) \<Rightarrow> (Inr (base\<lparr>Size := le32 sb\<rparr>), r2))
                    else (Inr base, r1)) of
                (Inl err, r2) \<Rightarrow> (Inl err, r2)
              | (Inr base', r2) \<Rightarrow>
                  (case readFull (unat (Size base')) r2 of
                     (Inl err, r3) \<Rightarrow> (Inl (ErrWrap ''read record data'' err), r3)
                   | (Inr data, r3) \<Rightarrow> (Inr (base', data), r3))))"

text \<open>The second half of \<open>ScanNext\<close>: the \<open>switch base.TagID\<close>.\<close>

definition decodeRecord :: "recHeader \<Rightarrow> u8 list \<Rightarrow> Rec" where
  "decodeRecord base data =
     (if TagID base = recTagParaHeader then RecParaHeader base
      else if TagID base = recTagParaText then decodeParaTextRecord base data
      else if TagID base = recTagParaCharShape then RecParaCharShape base
      else if TagID base = recTagParaLineSeg then RecParaLineSeg base
      else if TagID base = recTagCtrlHeader then decodeCtrlHeaderRecord base data
      else if TagID base = recTagListHeader then RecListHeader (decodeListHeaderRecord base data)
      else if TagID base = recTagTable then decodeTableRecord base data
      else if TagID base \<in> set scaffoldTags then RecScaffold base
      else RecUnknown base data)"

definition ScanNext :: "u8 list \<Rightarrow> (error + Rec) \<times> u8 list" where
  "ScanNext r =
     (case readFrame r of
        (Inl err, r') \<Rightarrow> (Inl err, r')
      | (Inr (base, data), r') \<Rightarrow> (Inr (decodeRecord base data), r'))"

subsection \<open>The framing as the specification words it\<close>

text \<open>Modelled from the spec: the repository has no record encoder. The inline encoding is the
  little-endian 32-bit header word holding tag, level and size (10, 10 and 12 bits), followed
  by the payload; the extended encoding puts the sentinel \<open>0xfff\<close> in the size field and the
  size in a following little-endian 32-bit word.\<close>

definition le32_bytes :: "u32 \<Rightarrow> u8 list" where
  "le32_bytes w = [ucast w, ucast (drop_bit 8 w), ucast (drop_bit 16 w), ucast (drop_bit 24 w)]"

definition header_word :: "u16 \<Rightarrow> u16 \<Rightarrow> u32 \<Rightarrow> u32" where
  "header_word tag level sz = ucast tag OR push_bit 10 (ucast level) OR push_bit 20 sz"

definition encode_inline :: "recHeader \<Rightarrow> u8 list \<Rightarrow> u8 list" where
  "encode_inline h payload = le32_bytes (header_word (TagID h) (Level h) (Size h)) @ payload"

definition encode_extended :: "recHeader \<Rightarrow> u8 list \<Rightarrow> u8 list" where
  "encode_extended h payload =
     le32_bytes (header_word (TagID h) (Level h) 0xfff) @ le32_bytes (Size h) @ payload"

text \<open>A record that the framing can carry: tag and level fit their 10-bit fields and the size
  is the length of the payload.\<close>

definition encodable :: "recHeader \<Rightarrow> u8 list \<Rightarrow> bool" where
  "encodable h payload \<longleftrightarrow>
     TagID h < 0x400 \<and> Level h < 0x400 \<and> unat (Size h) = length payload"

section \<open>Record framing: properties\<close>

lemma le32_le32_bytes: "le32 (le32_bytes w @ xs) = w"
proof (rule bit_word_eqI)
  fix n assume "n < LENGTH(32)"
  then have n: "n < 32" by simp
  consider "n < 8" | "8 \<le> n" "n < 16" | "16 \<le> n" "n < 24" | "24 \<le> n"
    by linarith
  then show "bit (le32 (le32_bytes w @ xs)) n = bit w n"
    using n by cases (auto simp add: le32_def le32_bytes_def bit_simps)
qed

lemma bit_lt_0x400: "(t :: u16) < 0x400 \<Longrightarrow> bit t n \<Longrightarrow> n < 10"
proof -
  assume a: "t < 0x400" and b: "bit t n"
  have "t AND mask 10 = t" using a by (intro less_mask_eq) simp
  then have "bit (t AND mask 10) n" using b by simp
  then show "n < 10" by (simp add: bit_simps)
qed

lemma bit_lt_0xfff: "(t :: u32) < 0x1000 \<Longrightarrow> bit t n \<Longrightarrow> n < 12"
proof -
  assume a: "t < 0x1000" and b: "bit t n"
  have "t AND mask 12 = t" using a by (intro less_mask_eq) simp
  then have "bit (t AND mask 12) n" using b by simp
  then show "n < 12" by (simp add: bit_simps)
qed

lemma m3ff: "(0x3ff :: u32) = mask 10" by (simp add: mask_eq_exp_minus_1)
lemma mfff: "(0xfff :: u32) = mask 12" by (simp add: mask_eq_exp_minus_1)

lemma hw_tag:
  assumes "tag < 0x400"
  shows "(ucast (header_word tag level sz AND 0x3ff) :: u16) = tag"
proof (rule bit_word_eqI)
  fix n assume "n < LENGTH(16)"
  then show "bit (ucast (header_word tag level sz AND 0x3ff) :: u16) n = bit tag n"
    using bit_lt_0x400 [OF assms, of n]
    by (auto simp add: header_word_def m3ff bit_simps)
qed

lemma hw_level:
  assumes "tag < 0x400" "level < 0x400"
  shows "(ucast (drop_bit 10 (header_word tag level sz) AND 0x3ff) :: u16) = level"
proof (rule bit_word_eqI)
  fix n assume "n < LENGTH(16)"
  then show "bit (ucast (drop_bit 10 (header_word tag level sz) AND 0x3ff) :: u16) n = bit level n"
    using bit_lt_0x400 [OF assms(1), of "10 + n"] bit_lt_0x400 [OF assms(2), of n]
    by (auto simp add: header_word_def m3ff bit_simps)
qed

lemma hw_size:
  assumes "tag < 0x400" "level < 0x400" "sz < 0x1000"
  shows "drop_bit 20 (header_word tag level sz) AND 0xfff = sz"
proof (rule bit_word_eqI)
  fix n assume "n < LENGTH(32)"
  then show "bit (drop_bit 20 (header_word tag level sz) AND 0xfff) n = bit sz n"
    using bit_lt_0x400 [OF assms(1), of "20 + n"] bit_lt_0x400 [OF assms(2), of "10 + n"]
      bit_lt_0xfff [OF assms(3), of n]
    by (auto simp add: header_word_def mfff bit_simps)
qed

lemma readFull_app: "length xs = n \<Longrightarrow> readFull n (xs @ r) = (Inr xs, r)"
  by (auto simp add: readFull_def)

lemma readFull_le32_bytes: "readFull 4 (le32_bytes w @ r) = (Inr (le32_bytes w), r)"
  by (rule readFull_app) (simp add: le32_bytes_def)

lemma le32_le32_bytes' : "le32 (le32_bytes w) = w"
  using le32_le32_bytes [of w "[]"] by simp

lemma readFrame_inline:
  assumes "encodable h payload" "Size h < 0xfff"
  shows "readFrame (encode_inline h payload @ rest) = (Inr (h, payload), rest)"
proof -
  from assms have t: "TagID h < 0x400" and l: "Level h < 0x400" and s: "Size h < 0x1000"
    and n: "unat (Size h) = length payload"
    by (auto simp: encodable_def elim: order_less_trans)
  have ne: "Size h \<noteq> 0xfff" using assms(2) by auto
  show ?thesis
    using ne n
    by (simp add: readFrame_def encode_inline_def readFull_le32_bytes le32_le32_bytes' Let_def
        hw_tag [OF t] hw_level [OF t l] hw_size [OF t l s] readFull_app)
qed

lemma hw_sentinel:
  assumes "tag < 0x400" "level < 0x400"
  shows "drop_bit 20 (header_word tag level 0xfff) AND 0xfff = 0xfff"
  by (rule hw_size [OF assms]) simp

lemma readFrame_extended:
  assumes "encodable h payload"
  shows "readFrame (encode_extended h payload @ rest) = (Inr (h, payload), rest)"
proof -
  from assms have t: "TagID h < 0x400" and l: "Level h < 0x400"
    and n: "unat (Size h) = length payload"
    by (auto simp: encodable_def)
  show ?thesis
    using n
    by (simp add: readFrame_def encode_extended_def readFull_le32_bytes le32_le32_bytes' Let_def
        hw_tag [OF t] hw_level [OF t l] hw_sentinel [OF t l] readFull_app)
qed

lemma hdr_of_decodeRecord: "hdr_of (decodeRecord base data) = base"
  by (simp add: decodeRecord_def decodeParaTextRecord_def decodeCtrlHeaderRecord_def
      decodeTableRecord_def decodeListHeaderRecord_def Let_def)


text \<open>The payload that a record node keeps as its \<open>Data\<close> field, when its type has one.\<close>

fun payload_of :: "Rec \<Rightarrow> u8 list option" where
  "payload_of (RecCtrlHeader b cid d) = Some d"
| "payload_of (RecTable b d rc cc) = Some d"
| "payload_of (RecUnknown b d) = Some d"
| "payload_of (RecParaHeader b) = None"
| "payload_of (RecParaText b els) = None"
| "payload_of (RecParaCharShape b) = None"
| "payload_of (RecParaLineSeg b) = None"
| "payload_of (RecListHeader r) = None"
| "payload_of (RecScaffold b) = None"

text \<open>The tags of the record types that consist of the header alone.\<close>

definition headerOnlyTags :: "u16 list" where
  "headerOnlyTags = [recTagParaHeader, recTagParaCharShape, recTagParaLineSeg] @ scaffoldTags"

lemma ScanNext_inline:
  assumes "encodable h payload" "Size h < 0xfff"
  shows "ScanNext (encode_inline h payload @ rest) = (Inr (decodeRecord h payload), rest)"
  by (simp add: ScanNext_def readFrame_inline [OF assms])

lemma ScanNext_extended:
  assumes "encodable h payload"
  shows "ScanNext (encode_extended h payload @ rest) = (Inr (decodeRecord h payload), rest)"
  by (simp add: ScanNext_def readFrame_extended [OF assms])

lemma decodeRecord_header_only:
  "TagID h \<in> set headerOnlyTags \<Longrightarrow>
   decodeRecord h payload \<in> {RecParaHeader h, RecParaCharShape h, RecParaLineSeg h, RecScaffold h}"
  by (auto simp add: decodeRecord_def headerOnlyTags_def scaffoldTags_def)

lemma decodeRecord_ParaText:
  "TagID h = recTagParaText \<Longrightarrow> decodeRecord h payload = RecParaText h (decodeParaTextElements payload)"
  by (simp add: decodeRecord_def decodeParaTextRecord_def)

lemma decodeRecord_CtrlHeader:
  "TagID h = recTagCtrlHeader \<Longrightarrow>
   decodeRecord h payload
     = RecCtrlHeader h (if 4 \<le> length payload then le32 (take 4 payload) else 0) payload"
  by (simp add: decodeRecord_def decodeCtrlHeaderRecord_def)

lemma decodeRecord_ListHeader:
  "TagID h = recTagListHeader \<Longrightarrow>
   decodeRecord h payload = RecListHeader (decodeListHeaderRecord h payload)"
  by (simp add: decodeRecord_def)

lemma decodeRecord_Table:
  "TagID h = recTagTable \<Longrightarrow>
   decodeRecord h payload
     = RecTable h payload (if 8 \<le> length payload then le16 (drop 4 payload) else 0)
         (if 8 \<le> length payload then le16 (drop 6 payload) else 0)"
  by (simp add: decodeRecord_def decodeTableRecord_def)

lemma decodeRecord_other:
  "TagID h \<notin> set headerOnlyTags \<Longrightarrow> TagID h \<noteq> recTagParaText \<Longrightarrow>
   TagID h \<noteq> recTagCtrlHeader \<Longrightarrow> TagID h \<noteq> recTagListHeader \<Longrightarrow> TagID h \<noteq> recTagTable \<Longrightarrow>
   decodeRecord h payload = RecUnknown h payload"
  by (simp add: decodeRecord_def headerOnlyTags_def)

lemma decodeRecord_payload:
  "payload_of (decodeRecord h payload)
     = (if TagID h \<in> set headerOnlyTags \<or> TagID h = recTagParaText \<or> TagID h = recTagListHeader
        then None else Some payload)"
proof -
  consider "TagID h \<in> set headerOnlyTags" | "TagID h = recTagParaText"
    | "TagID h = recTagCtrlHeader" | "TagID h = recTagListHeader" | "TagID h = recTagTable"
    | "TagID h \<notin> set headerOnlyTags" "TagID h \<noteq> recTagParaText" "TagID h \<noteq> recTagCtrlHeader"
      "TagID h \<noteq> recTagListHeader" "TagID h \<noteq> recTagTable"
    by blast
  then show ?thesis
  proof cases
    case 1
    with decodeRecord_header_only [OF 1, of payload] show ?thesis by auto
  next
    case 2
    then show ?thesis by (simp add: decodeRecord_ParaText headerOnlyTags_def scaffoldTags_def)
  next
    case 3
    then show ?thesis by (simp add: decodeRecord_CtrlHeader headerOnlyTags_def scaffoldTags_def)
  next
    case 4
    then show ?thesis by (simp add: decodeRecord_ListHeader headerOnlyTags_def scaffoldTags_def)
  next
    case 5
    then show ?thesis by (simp add: decodeRecord_Table headerOnlyTags_def scaffoldTags_def)
  next
    case 6
    then show ?thesis by (simp add: decodeRecord_other)
  qed
qed

text \<open>C3 as stated fails: \<open>ScanNext\<close> does not yield the payload back for every record. A
  paragraph-header record (tag \<open>0x42\<close>) of size 2 is read back as the header alone, whether its
  payload is \<open>07 09\<close> or \<open>08 0a\<close>.\<close>

theorem ScanNext_drops_payload_counterexample:
  "ScanNext (encode_inline \<lparr>TagID = 0x42, Level = 1, Size = 2\<rparr> [7, 9])
     = (Inr (RecParaHeader \<lparr>TagID = 0x42, Level = 1, Size = 2\<rparr>), []) \<and>
   ScanNext (encode_inline \<lparr>TagID = 0x42, Level = 1, Size = 2\<rparr> [8, 10])
     = (Inr (RecParaHeader \<lparr>TagID = 0x42, Level = 1, Size = 2\<rparr>), [])"
  by (simp add: encode_inline_def le32_bytes_def header_word_def ScanNext_def readFrame_def
      readFull_def le32_def decodeRecord_def Let_def)

text \<open>C3, amended. For every record that the framing can carry (tag and level within their
  10-bit fields, size equal to the payload length) and every continuation of the stream:
  \<open>ScanNext\<close> reads the extended encoding (size at least the sentinel \<open>0xfff\<close>) and the inline
  encoding (size below it) to the end of the payload, leaving the continuation, and returns a
  record with the same tag, level and size. The payload comes back byte for byte in the
  \<open>Data\<close> field of control-header records, table records and records of an unrecognised tag;
  a paragraph-text record holds the elements decoded from it and a list-header record the
  fields decoded from it; the header-only record types do not keep it.\<close>

theorem ScanNext_framing_roundtrip:
  "encodable h payload \<Longrightarrow>
   (0xfff \<le> Size h \<and> enc = encode_extended h payload \<or>
    Size h < 0xfff \<and> enc = encode_inline h payload) \<Longrightarrow>
   (\<exists>rec. ScanNext (enc @ rest) = (Inr rec, rest) \<and>
      Tag rec = TagID h \<and> Lvl rec = Level h \<and> Len rec = Size h \<and> hdr_of rec = h \<and>
      payload_of rec
        = (if TagID h \<in> set headerOnlyTags \<or> TagID h = recTagParaText \<or> TagID h = recTagListHeader
           then None else Some payload) \<and>
      (TagID h \<in> set headerOnlyTags \<longrightarrow>
         rec \<in> {RecParaHeader h, RecParaCharShape h, RecParaLineSeg h, RecScaffold h}) \<and>
      (TagID h = recTagParaText \<longrightarrow> rec = RecParaText h (decodeParaTextElements payload)) \<and>
      (TagID h = recTagListHeader \<longrightarrow> rec = RecListHeader (decodeListHeaderRecord h payload)) \<and>
      (TagID h = recTagCtrlHeader \<longrightarrow>
         rec = RecCtrlHeader h (if 4 \<le> length payload then le32 (take 4 payload) else 0) payload) \<and>
      (TagID h = recTagTable \<longrightarrow>
         rec = RecTable h payload (if 8 \<le> length payload then le16 (drop 4 payload) else 0)
                 (if 8 \<le> length payload then le16 (drop 6 payload) else 0)) \<and>
      (TagID h \<notin> set headerOnlyTags \<and> TagID h \<noteq> recTagParaText \<and> TagID h \<noteq> recTagCtrlHeader \<and>
       TagID h \<noteq> recTagListHeader \<and> TagID h \<noteq> recTagTable \<longrightarrow> rec = RecUnknown h payload))"
proof -
  assume e: "encodable h payload"
    and p: "0xfff \<le> Size h \<and> enc = encode_extended h payload \<or>
            Size h < 0xfff \<and> enc = encode_inline h payload"
  have s: "ScanNext (enc @ rest) = (Inr (decodeRecord h payload), rest)"
    using p ScanNext_extended [OF e, of rest] ScanNext_inline [OF e, of rest] by auto
  show ?thesis
  proof (intro exI [of _ "decodeRecord h payload"] conjI impI)
    show "ScanNext (enc @ rest) = (Inr (decodeRecord h payload), rest)" by (rule s)
    show "hdr_of (decodeRecord h payload) = h" by (rule hdr_of_decodeRecord)
    then show "Tag (decodeRecord h payload) = TagID h" "Lvl (decodeRecord h payload) = Level h"
      "Len (decodeRecord h payload) = Size h"
      by (simp_all add: Tag_def Lvl_def Len_def)
    show "payload_of (decodeRecord h payload)
        = (if TagID h \<in> set headerOnlyTags \<or> TagID h = recTagParaText \<or> TagID h = recTagListHeader
           then None else Some payload)"
      by (rule decodeRecord_payload)
    show "decodeRecord h payload
            \<in> {RecParaHeader h, RecParaCharShape h, RecParaLineSeg h, RecScaffold h}"
      if "TagID h \<in> set headerOnlyTags"
      using that by (rule decodeRecord_header_only)
  qed (simp_all add: decodeRecord_ParaText decodeRecord_ListHeader
        decodeRecord_CtrlHeader decodeRecord_Table decodeRecord_other)
qed

theorem ScanNext_framing_roundtrip_witness:
  "encodable \<lparr>TagID = 0x47, Level = 1, Size = 2\<rparr> [7, 9] \<and>
   (\<exists>rec. ScanNext (encode_inline \<lparr>TagID = 0x47, Level = 1, Size = 2\<rparr> [7, 9] @ [0xAA])
            = (Inr rec, [0xAA]) \<and>
          rec = RecCtrlHeader \<lparr>TagID = 0x47, Level = 1, Size = 2\<rparr> 0 [7, 9]) \<and>
   encodable \<lparr>TagID = 5, Level = 3, Size = 0xfff\<rparr> (replicate 4095 1) \<and>
   (\<exists>rec. ScanNext (encode_extended \<lparr>TagID = 5, Level = 3, Size = 0xfff\<rparr> (replicate 4095 1) @ [0xAA])
            = (Inr rec, [0xAA]) \<and>
          payload_of rec = Some (replicate 4095 1) \<and> hdr_of rec = \<lparr>TagID = 5, Level = 3, Size = 0xfff\<rparr>)"
proof -
  let ?h1 = "\<lparr>TagID = 0x47, Level = 1, Size = 2\<rparr> :: recHeader"
  let ?h2 = "\<lparr>TagID = 5, Level = 3, Size = 0xfff\<rparr> :: recHeader"
  have a: "encodable ?h1 [7, 9]" by (simp add: encodable_def)
  have b: "encodable ?h2 (replicate 4095 1)" by (simp add: encodable_def)
  have pa: "0xfff \<le> Size ?h1 \<and> encode_inline ?h1 [7, 9] = encode_extended ?h1 [7, 9] \<or>
            Size ?h1 < 0xfff \<and> encode_inline ?h1 [7, 9] = encode_inline ?h1 [7, 9]"
    by simp
  have pb: "0xfff \<le> Size ?h2 \<and> encode_extended ?h2 (replicate 4095 1) = encode_extended ?h2 (replicate 4095 1) \<or>
            Size ?h2 < 0xfff \<and> encode_extended ?h2 (replicate 4095 1) = encode_inline ?h2 (replicate 4095 1)"
    by simp
  have t2: "TagID ?h2 \<notin> set headerOnlyTags"
    by (simp add: headerOnlyTags_def scaffoldTags_def)
  from ScanNext_framing_roundtrip [OF a pa, of "[0xAA]"]
  have 1: "\<exists>rec. ScanNext (encode_inline ?h1 [7, 9] @ [0xAA]) = (Inr rec, [0xAA]) \<and>
          rec = RecCtrlHeader ?h1 0 [7, 9]"
    by auto
  from ScanNext_framing_roundtrip [OF b pb, of "[0xAA]"] t2
  have 2: "\<exists>rec. ScanNext (encode_extended ?h2 (replicate 4095 1) @ [0xAA]) = (Inr rec, [0xAA]) \<and>
          payload_of rec = Some (replicate 4095 1) \<and> hdr_of rec = ?h2"
    by auto
  from a b 1 2 show ?thesis by blast
qed

section \<open>Streaming block decryption (internal/hwpv5/crypto.go)\<close>

text \<open>\<open>cryptoReader\<close>: the underlying reader \<open>r\<close> (the bytes not yet read from it), the block
  cipher's \<open>Decrypt\<close> on one block, the buffered decrypted block and the read position in it.\<close>

record cryptoReader =
  cr_r :: "u8 list"
  cr_block :: "u8 list \<Rightarrow> u8 list"
  cr_buf :: "u8 list"
  cr_ptr :: nat

text \<open>The first branch of \<open>Read\<close>: \<open>n = copy(p, cr.buf[cr.ptr:])\<close>, for a buffer \<open>p\<close> of length
  \<open>lenp\<close>. The result is the bytes copied into \<open>p\<close>.\<close>

definition serve :: "cryptoReader \<Rightarrow> nat \<Rightarrow> (error + u8 list) \<times> cryptoReader" where
  "serve cr lenp =
     (let n = min lenp (length (cr_buf cr) - cr_ptr cr)
      in (Inr (take n (drop (cr_ptr cr) (cr_buf cr))), cr\<lparr>cr_ptr := cr_ptr cr + n\<rparr>))"

text \<open>\<open>cryptoReader.Read\<close>. \<open>io.ReadFull\<close> returns \<open>io.EOF\<close> only when it read nothing.\<close>

function Read :: "cryptoReader \<Rightarrow> nat \<Rightarrow> (error + u8 list) \<times> cryptoReader" where
  "Read cr lenp =
     (if cr_ptr cr < length (cr_buf cr) then serve cr lenp
      else (case readFull 16 (cr_r cr) of
              (Inl err, r') \<Rightarrow>
                (if err = EOF \<and> length (cr_r cr) = 0 then (Inl EOF, cr\<lparr>cr_r := r'\<rparr>)
                 else if err = ErrUnexpectedEOF
                 then (Inl (ErrNew ''encrypted stream not aligned to block size''), cr\<lparr>cr_r := r'\<rparr>)
                 else (Inl err, cr\<lparr>cr_r := r'\<rparr>))
            | (Inr blk, r') \<Rightarrow> Read (cr\<lparr>cr_r := r', cr_buf := cr_block cr blk, cr_ptr := 0\<rparr>) lenp))"
  by pat_completeness auto
termination
  by (relation "measure (\<lambda>(cr, lenp). length (cr_r cr))")
     (auto simp add: readFull_def split: if_splits)

declare Read.simps [simp del]

lemma Read_progress:
  "Read cr (Suc m) = (Inr bs, cr') \<Longrightarrow>
   length (cr_r cr') < length (cr_r cr) \<or>
   (length (cr_r cr') = length (cr_r cr) \<and>
    length (cr_buf cr') - cr_ptr cr' < length (cr_buf cr) - cr_ptr cr)"
proof (induction cr "Suc m" arbitrary: bs cr' rule: Read.induct)
  case (1 cr)
  show ?case
  proof (cases "cr_ptr cr < length (cr_buf cr)")
    case True
    with "1.prems" show ?thesis
      by (subst (asm) Read.simps) (auto simp add: serve_def Let_def min_def)
  next
    case False
    show ?thesis
    proof (cases "readFull 16 (cr_r cr)")
      case (Pair res r')
      show ?thesis
      proof (cases res)
        case (Inl err)
        with "1.prems" False Pair show ?thesis
          by (subst (asm) Read.simps) (auto split: if_splits)
      next
        case (Inr blk)
        let ?cr2 = "cr\<lparr>cr_r := r', cr_buf := cr_block cr blk, cr_ptr := 0\<rparr>"
        have "Read ?cr2 (Suc m) = (Inr bs, cr')"
          using "1.prems" False Pair Inr by (subst (asm) Read.simps) simp
        from "1.hyps" [OF False Pair [symmetric] Inr this]
        have "length (cr_r cr') \<le> length r'" by auto
        moreover have "length r' < length (cr_r cr)"
          using Pair Inr by (auto simp add: readFull_def split: if_splits)
        ultimately show ?thesis by simp
      qed
    qed
  qed
qed

text \<open>Reading to exhaustion: \<open>Read\<close> is called with a buffer of a fixed positive length
  \<open>Suc m\<close> until it returns an error; the result is the bytes read and that error.\<close>

function readAll :: "cryptoReader \<Rightarrow> nat \<Rightarrow> u8 list \<Rightarrow> u8 list \<times> error" where
  "readAll cr m acc =
     (case Read cr (Suc m) of
        (Inl err, cr') \<Rightarrow> (acc, err)
      | (Inr bs, cr') \<Rightarrow> readAll cr' m (acc @ bs))"
  by pat_completeness auto
termination
proof (relation "measures [\<lambda>(cr, m, acc). length (cr_r cr),
                            \<lambda>(cr, m, acc). length (cr_buf cr) - cr_ptr cr]", goal_cases)
  case 1
  show ?case by simp
next
  case (2 cr m acc x cr' bs)
  then have "Read cr (Suc m) = (Inr bs, cr')" by simp
  from Read_progress [OF this] show ?case by auto
qed

declare readAll.simps [simp del]

text \<open>Electronic-codebook mode as the specification words it: every full 16-byte block goes
  through the block function on its own.\<close>

function ecb :: "(u8 list \<Rightarrow> u8 list) \<Rightarrow> u8 list \<Rightarrow> u8 list" where
  "ecb f s = (if length s < 16 then [] else f (take 16 s) @ ecb f (drop 16 s))"
  by pat_completeness auto
termination
  by (relation "measure (\<lambda>(f, s). length s)") auto

declare ecb.simps [simp del]

text \<open>\<open>&cryptoReader{r: currentReader, block: block}\<close>, as \<open>OpenSection\<close> builds it.\<close>

definition newCryptoReader :: "u8 list \<Rightarrow> (u8 list \<Rightarrow> u8 list) \<Rightarrow> cryptoReader" where
  "newCryptoReader r block = \<lparr>cr_r = r, cr_block = block, cr_buf = [], cr_ptr = 0\<rparr>"

abbreviation (input) notAligned :: error where
  "notAligned \<equiv> ErrNew ''encrypted stream not aligned to block size''"

section \<open>Streaming block decryption: properties\<close>

text \<open>What is still to be delivered: the rest of the buffered block, then the decryption of
  the full blocks of the underlying stream.\<close>

definition pending :: "cryptoReader \<Rightarrow> u8 list" where
  "pending cr = drop (cr_ptr cr) (cr_buf cr) @ ecb (cr_block cr) (cr_r cr)"

definition final_err :: "u8 list \<Rightarrow> error" where
  "final_err r = (if length r mod 16 = 0 then EOF else notAligned)"

lemma mod16_drop: "16 \<le> (n :: nat) \<Longrightarrow> (n - 16) mod 16 = n mod 16"
  using le_mod_geq [of 16 n] by simp

lemma whole_blocks_ge: "16 \<le> (n :: nat) \<Longrightarrow> 16 \<le> n - n mod 16"
proof -
  assume a: "16 \<le> n"
  have "n - n mod 16 = 16 * (n div 16)" by (simp add: minus_mod_eq_mult_div)
  moreover have "1 \<le> n div 16" using a by (simp add: div_greater_zero_iff Suc_le_eq)
  ultimately show ?thesis by simp
qed

lemma ecb_short: "length s < 16 \<Longrightarrow> ecb f s = []"
  by (subst ecb.simps) simp

lemma ecb_step: "16 \<le> length s \<Longrightarrow> ecb f s = f (take 16 s) @ ecb f (drop 16 s)"
  by (subst ecb.simps) simp

lemma Read_serve: "cr_ptr cr < length (cr_buf cr) \<Longrightarrow> Read cr lenp = serve cr lenp"
  by (subst Read.simps) simp

lemma Read_refill:
  "\<not> cr_ptr cr < length (cr_buf cr) \<Longrightarrow> readFull 16 (cr_r cr) = (Inr blk, r') \<Longrightarrow>
   Read cr lenp = Read (cr\<lparr>cr_r := r', cr_buf := cr_block cr blk, cr_ptr := 0\<rparr>) lenp"
  by (subst Read.simps) simp

lemma Read_fail:
  "\<not> cr_ptr cr < length (cr_buf cr) \<Longrightarrow> readFull 16 (cr_r cr) = (Inl e, r') \<Longrightarrow>
   Read cr lenp = (Inl (final_err (cr_r cr)), cr\<lparr>cr_r := r'\<rparr>)"
  by (subst Read.simps) (auto simp add: readFull_def final_err_def split: if_splits)

lemma Read_Inr:
  "Read cr lenp = (Inr bs, cr') \<Longrightarrow>
   pending cr = bs @ pending cr' \<and> final_err (cr_r cr') = final_err (cr_r cr) \<and>
   cr_block cr' = cr_block cr"
proof (induction cr lenp arbitrary: bs cr' rule: Read.induct)
  case (1 cr lenp)
  show ?case
  proof (cases "cr_ptr cr < length (cr_buf cr)")
    case True
    with "1.prems" have bs: "bs = take (min lenp (length (cr_buf cr) - cr_ptr cr)) (drop (cr_ptr cr) (cr_buf cr))"
      and cr': "cr' = cr\<lparr>cr_ptr := cr_ptr cr + min lenp (length (cr_buf cr) - cr_ptr cr)\<rparr>"
      by (simp_all add: Read_serve serve_def Let_def)
    have "take (min lenp (length (cr_buf cr) - cr_ptr cr)) (drop (cr_ptr cr) (cr_buf cr))
          @ drop (cr_ptr cr + min lenp (length (cr_buf cr) - cr_ptr cr)) (cr_buf cr)
          = drop (cr_ptr cr) (cr_buf cr)"
      by (metis add.commute append_take_drop_id drop_drop)
    then show ?thesis by (simp add: pending_def bs cr')
  next
    case False
    show ?thesis
    proof (cases "readFull 16 (cr_r cr)")
      case (Pair res r')
      show ?thesis
      proof (cases res)
        case (Inl err)
        with "1.prems" False Pair show ?thesis
          by (simp add: Read_fail)
      next
        case (Inr blk)
        let ?cr2 = "cr\<lparr>cr_r := r', cr_buf := cr_block cr blk, cr_ptr := 0\<rparr>"
        have rd: "Read ?cr2 lenp = (Inr bs, cr')"
          using "1.prems" False Pair Inr by (simp add: Read_refill)
        have blk: "blk = take 16 (cr_r cr)" and r': "r' = drop 16 (cr_r cr)"
          and len: "16 \<le> length (cr_r cr)"
          using Pair Inr by (auto simp add: readFull_def split: if_splits)
        have e: "ecb (cr_block cr) (cr_r cr) = cr_block cr blk @ ecb (cr_block cr) r'"
          using len by (simp add: ecb_step blk r')
        have f: "final_err r' = final_err (cr_r cr)"
          using len by (simp add: final_err_def r' mod16_drop)
        from "1.IH" [OF False Pair [symmetric] Inr rd]
        show ?thesis using False e f by (simp add: pending_def)
      qed
    qed
  qed
qed

lemma Read_Inl:
  "Read cr lenp = (Inl err, cr') \<Longrightarrow> pending cr = [] \<and> err = final_err (cr_r cr)"
proof (induction cr lenp arbitrary: err cr' rule: Read.induct)
  case (1 cr lenp)
  show ?case
  proof (cases "cr_ptr cr < length (cr_buf cr)")
    case True
    with "1.prems" show ?thesis
      by (simp add: Read_serve serve_def Let_def)
  next
    case False
    show ?thesis
    proof (cases "readFull 16 (cr_r cr)")
      case (Pair res r')
      show ?thesis
      proof (cases res)
        case (Inl e)
        have short: "length (cr_r cr) < 16"
          using Pair Inl by (auto simp add: readFull_def split: if_splits)
        then have nil: "ecb (cr_block cr) (cr_r cr) = []"
          by (rule ecb_short)
        have "err = final_err (cr_r cr)"
          using "1.prems" False Pair Inl by (simp add: Read_fail)
        then show ?thesis using False nil by (simp add: pending_def)
      next
        case (Inr blk)
        let ?cr2 = "cr\<lparr>cr_r := r', cr_buf := cr_block cr blk, cr_ptr := 0\<rparr>"
        have rd: "Read ?cr2 lenp = (Inl err, cr')"
          using "1.prems" False Pair Inr by (simp add: Read_refill)
        have blk: "blk = take 16 (cr_r cr)" and r': "r' = drop 16 (cr_r cr)"
          and len: "16 \<le> length (cr_r cr)"
          using Pair Inr by (auto simp add: readFull_def split: if_splits)
        have e: "ecb (cr_block cr) (cr_r cr) = cr_block cr blk @ ecb (cr_block cr) r'"
          using len by (simp add: ecb_step blk r')
        have f: "final_err r' = final_err (cr_r cr)"
          using len by (simp add: final_err_def r' mod16_drop)
        from "1.IH" [OF False Pair [symmetric] Inr rd]
        show ?thesis using False e f by (simp add: pending_def)
      qed
    qed
  qed
qed

lemma readAll_pending:
  "readAll cr m acc = (acc @ pending cr, final_err (cr_r cr))"
proof (induction cr m acc rule: readAll.induct)
  case (1 cr m acc)
  show ?case
  proof (cases "Read cr (Suc m)")
    case (Pair res cr')
    show ?thesis
    proof (cases res)
      case (Inl err)
      with Pair Read_Inl [of cr "Suc m" err cr'] show ?thesis
        by (subst readAll.simps) simp
    next
      case (Inr bs)
      with Pair Read_Inr [of cr "Suc m" bs cr'] "1.IH" [OF Pair [symmetric] Inr]
      show ?thesis
        by (subst readAll.simps) simp
    qed
  qed
qed

lemma ecb_whole_blocks:
  "ecb f s = ecb f (take (length s - length s mod 16) s)"
proof (induction f s rule: ecb.induct)
  case (1 f s)
  show ?case
  proof (cases "length s < 16")
    case True
    then show ?thesis by (simp add: ecb_short)
  next
    case False
    then have len: "16 \<le> length s" by simp
    have m: "length (drop 16 s) mod 16 = length s mod 16"
      using len by (simp add: mod16_drop)
    have k: "16 \<le> length s - length s mod 16"
      using len by (rule whole_blocks_ge)
    have "ecb f s = f (take 16 s) @ ecb f (drop 16 s)"
      using len by (rule ecb_step)
    also have "ecb f (drop 16 s)
               = ecb f (take (length (drop 16 s) - length (drop 16 s) mod 16) (drop 16 s))"
      by (rule "1.IH" [OF False])
    also have "take (length (drop 16 s) - length (drop 16 s) mod 16) (drop 16 s)
               = drop 16 (take (length s - length s mod 16) s)"
      using len k by (simp add: mod16_drop drop_take add.commute)
    also have "f (take 16 s) @ ecb f (drop 16 (take (length s - length s mod 16) s))
               = ecb f (take (length s - length s mod 16) s)"
      using len k by (simp add: ecb_step [of "take (length s - length s mod 16) s"] min_def)
    finally show ?thesis .
  qed
qed

lemma ecb_length:
  "(\<And>b. length b = 16 \<Longrightarrow> length (f b) = 16) \<Longrightarrow> length s mod 16 = 0 \<Longrightarrow>
   length (ecb f s) = length s"
proof (induction f s rule: ecb.induct)
  case (1 f s)
  show ?case
  proof (cases "length s < 16")
    case True
    with "1.prems" show ?thesis by (simp add: ecb_short)
  next
    case False
    then have len: "16 \<le> length s" by simp
    have "length (drop 16 s) mod 16 = 0"
      using len "1.prems"(2) by (simp add: mod16_drop)
    from "1.IH" [OF False "1.prems"(1) this] len "1.prems"(1) [of "take 16 s"]
    show ?thesis by (simp add: ecb_step)
  qed
qed

lemma ecb_inverse:
  "(\<And>b. length b = 16 \<Longrightarrow> length (enc b) = 16 \<and> dec (enc b) = b) \<Longrightarrow>
   length p mod 16 = 0 \<Longrightarrow> ecb dec (ecb enc p) = p"
proof (induction enc p rule: ecb.induct)
  case (1 enc p)
  show ?case
  proof (cases "length p < 16")
    case True
    with "1.prems" have "p = []" by simp
    then show ?thesis by (simp add: ecb_short)
  next
    case False
    then have len: "16 \<le> length p" by simp
    have m: "length (drop 16 p) mod 16 = 0"
      using len "1.prems"(2) by (simp add: mod16_drop)
    have b: "length (enc (take 16 p)) = 16" "dec (enc (take 16 p)) = take 16 p"
      using "1.prems"(1) [of "take 16 p"] len by simp_all
    have "ecb enc p = enc (take 16 p) @ ecb enc (drop 16 p)"
      using len by (rule ecb_step)
    then have "ecb dec (ecb enc p) = take 16 p @ ecb dec (ecb enc (drop 16 p))"
      using b by (simp add: ecb_step [of "enc (take 16 p) @ ecb enc (drop 16 p)"])
    also have "ecb dec (ecb enc (drop 16 p)) = drop 16 p"
      by (rule "1.IH" [OF False "1.prems"(1) m])
    finally show ?thesis by simp
  qed
qed

text \<open>C4. For every underlying byte stream, every block function and every positive read
  buffer length: when the stream's length is a multiple of 16, reading to exhaustion yields
  the block-by-block decryption of the whole stream and ends with \<open>io.EOF\<close>; when the stream
  ends with a short block, it yields the decryption of the full blocks before it and ends with
  the not-aligned error, and a read that meets only a short block returns that error and no
  data; and what a block function encrypted block by block is read back as the plaintext by
  its inverse.\<close>

theorem cryptoReader_read_to_exhaustion:
  "(length s mod 16 = 0 \<longrightarrow>
      readAll (newCryptoReader s dec) m [] = (ecb dec s, EOF)) \<and>
   (length s mod 16 \<noteq> 0 \<longrightarrow>
      readAll (newCryptoReader s dec) m []
        = (ecb dec (take (length s - length s mod 16) s), notAligned)) \<and>
   (0 < length s \<and> length s < 16 \<longrightarrow>
      fst (Read (newCryptoReader s dec) lenp) = Inl notAligned) \<and>
   ((\<forall>b. length b = 16 \<longrightarrow> length (enc b) = 16 \<and> dec (enc b) = b) \<and> length p mod 16 = 0 \<longrightarrow>
      readAll (newCryptoReader (ecb enc p) dec) m [] = (p, EOF))"
proof (intro conjI impI)
  have all: "readAll (newCryptoReader s dec) m [] = (ecb dec s, final_err s)" for s
    by (simp add: readAll_pending pending_def newCryptoReader_def)
  show "readAll (newCryptoReader s dec) m [] = (ecb dec s, EOF)" if "length s mod 16 = 0"
    using that by (simp add: all final_err_def)
  show "readAll (newCryptoReader s dec) m []
        = (ecb dec (take (length s - length s mod 16) s), notAligned)"
    if "length s mod 16 \<noteq> 0"
    using that ecb_whole_blocks [of dec s] by (simp add: all final_err_def)
  show "fst (Read (newCryptoReader s dec) lenp) = Inl notAligned"
    if "0 < length s \<and> length s < 16"
  proof -
    have "readFull 16 s = (Inl ErrUnexpectedEOF, [])"
      using that by (auto simp add: readFull_def)
    then have "Read (newCryptoReader s dec) lenp
               = (Inl (final_err s), (newCryptoReader s dec)\<lparr>cr_r := []\<rparr>)"
      using Read_fail [of "newCryptoReader s dec" ErrUnexpectedEOF "[]" lenp]
      by (simp add: newCryptoReader_def)
    then show ?thesis using that by (simp add: final_err_def)
  qed
  show "readAll (newCryptoReader (ecb enc p) dec) m [] = (p, EOF)"
    if h: "(\<forall>b. length b = 16 \<longrightarrow> length (enc b) = 16 \<and> dec (enc b) = b) \<and> length p mod 16 = 0"
  proof -
    from h have "length (ecb enc p) = length p" by (intro ecb_length) auto
    moreover from h have "ecb dec (ecb enc p) = p" by (intro ecb_inverse) auto
    ultimately show ?thesis using h by (simp add: all final_err_def)
  qed
qed

theorem cryptoReader_read_to_exhaustion_witness:
  "length (replicate 32 (7 :: u8)) mod 16 = 0 \<and>
   readAll (newCryptoReader (replicate 32 7) (map (\<lambda>b. b XOR 0x5A))) 4 []
     = (ecb (map (\<lambda>b. b XOR 0x5A)) (replicate 32 7), EOF) \<and>
   length (replicate 20 (7 :: u8)) mod 16 \<noteq> 0 \<and>
   readAll (newCryptoReader (replicate 20 7) (map (\<lambda>b. b XOR 0x5A))) 4 []
     = (ecb (map (\<lambda>b. b XOR 0x5A)) (replicate 16 7), notAligned) \<and>
   fst (Read (newCryptoReader (replicate 4 7) (map (\<lambda>b. b XOR 0x5A))) 8) = Inl notAligned \<and>
   readAll (newCryptoReader (ecb (map (\<lambda>b. b XOR 0x5A)) (replicate 32 7)) (map (\<lambda>b. b XOR 0x5A))) 4 []
     = (replicate 32 7, EOF)"
proof -
  let ?f = "map (\<lambda>b :: u8. b XOR 0x5A)"
  have inv: "\<forall>b. length b = 16 \<longrightarrow> length (?f b) = 16 \<and> ?f (?f b) = b"
    by (simp add: comp_def xor.assoc)
  show ?thesis
    using inv
      cryptoReader_read_to_exhaustion [of "replicate 32 7" ?f 4 8 ?f "replicate 32 7"]
      cryptoReader_read_to_exhaustion [of "replicate 20 7" ?f 4 8 ?f "replicate 32 7"]
      cryptoReader_read_to_exhaustion [of "replicate 4 7" ?f 4 8 ?f "replicate 32 7"]
    by simp
qed

text \<open>A short stream read directly: two blocks through an XOR block function, in reads of 5.\<close>

lemma readAll_example:
  "readAll (newCryptoReader (replicate 32 7) (map (\<lambda>b. b XOR 0x5A))) 4 [] = (replicate 32 0x5D, EOF)"
  by (simp add: readAll_pending pending_def newCryptoReader_def final_err_def ecb_step ecb_short
      replicate_add [symmetric])

section \<open>Content nodes (internal/document/types.go)\<close>

text \<open>The integer fields are Go \<open>int\<close>s that the assembly state machine fills from unsigned
  16-bit record fields and their sums: they are natural numbers and cannot overflow.\<close>

record Cell =
  cell_Row :: nat
  cell_Col :: nat
  cell_RowSpan :: nat
  cell_ColSpan :: nat
  cell_Text :: gostring

record Table =
  tbl_Rows :: nat
  tbl_Cols :: nat
  tbl_Cells :: "Cell list"

datatype ContentNode = Paragraph gostring | TableNode Table | Image

section \<open>The assembly state machine (internal/hwpv5/content_scanner.go)\<close>

text \<open>\<open>tableBuilder\<close>. \<open>currentCell\<close> points into \<open>cells\<close>: it is the index of the cell it
  points to (always the last one, set when the cell is appended).\<close>

record tableBuilder =
  tb_rows :: nat
  tb_cols :: nat
  tb_cells :: "Cell list"
  tb_currentCell :: "nat option"
  tb_tableLevel :: u16

text \<open>\<open>ContentScanner\<close>. The reader, the current section and its record scanner are the
  field \<open>source\<close>: the results that the successive \<open>ScanNext\<close> calls of \<open>nextRecord\<close> will
  give, over all sections, \<open>io.EOF\<close> between sections left out; once they are used up
  \<open>nextRecord\<close> returns \<open>io.EOF\<close>. \<open>bufferedRec\<close> with \<open>hasBuffered\<close> is an option;
  \<open>currentPara\<close> is the builder's \<open>textParts\<close> when there is one.\<close>

record ContentScanner =
  source :: "(error + Rec) list"
  bufferedRec :: "Rec option"
  currentPara :: "gostring list option"
  currentTable :: "tableBuilder option"
  tableLevel :: u16

definition nextRecord :: "ContentScanner \<Rightarrow> (error + Rec) \<times> ContentScanner" where
  "nextRecord s =
     (case bufferedRec s of
        Some rec \<Rightarrow> (Inr rec, s\<lparr>bufferedRec := None\<rparr>)
      | None \<Rightarrow>
          (case source s of
             [] \<Rightarrow> (Inl EOF, s)
           | x # xs \<Rightarrow> (x, s\<lparr>source := xs\<rparr>)))"

definition putBack :: "ContentScanner \<Rightarrow> Rec \<Rightarrow> ContentScanner" where
  "putBack s rec = s\<lparr>bufferedRec := Some rec\<rparr>"

definition finishTable :: "ContentScanner \<Rightarrow> Table option \<times> ContentScanner" where
  "finishTable s =
     (case currentTable s of
        None \<Rightarrow> (None, s)
      | Some tb \<Rightarrow>
          (Some \<lparr>tbl_Rows = tb_rows tb, tbl_Cols = tb_cols tb, tbl_Cells = tb_cells tb\<rparr>,
           s\<lparr>currentTable := None\<rparr>))"

definition joinTextParts :: "gostring list \<Rightarrow> gostring" where
  "joinTextParts parts = concat parts"

text \<open>The number of records that \<open>nextRecord\<close> can still return.\<close>

definition pendingRecords :: "ContentScanner \<Rightarrow> nat" where
  "pendingRecords s = length (source s) + (case bufferedRec s of None \<Rightarrow> 0 | Some rec \<Rightarrow> 1)"

lemma nextRecord_pending:
  "nextRecord s = (Inr rec, s') \<Longrightarrow> Suc (pendingRecords s') = pendingRecords s"
  by (auto simp add: nextRecord_def pendingRecords_def split: option.splits list.splits)

lemma nextRecord_unbuffered:
  "nextRecord s = (res, s') \<Longrightarrow> bufferedRec s' = None"
  by (auto simp add: nextRecord_def split: option.splits list.splits)

text \<open>\<open>skipChildren\<close>: its error result and the scanner afterwards.\<close>

function skipChildren :: "ContentScanner \<Rightarrow> u16 \<Rightarrow> error option \<times> ContentScanner" where
  "skipChildren s parentLevel =
     (case nextRecord s of
        (Inl err, s') \<Rightarrow> (if err = EOF then (None, s') else (Some err, s'))
      | (Inr rec, s') \<Rightarrow>
          (if Lvl rec \<le> parentLevel then (None, putBack s' rec)
           else skipChildren s' parentLevel))"
  by pat_completeness auto
termination
proof (relation "measure (\<lambda>(s, parentLevel). pendingRecords s)", goal_cases)
  case 1
  show ?case by simp
next
  case (2 s parentLevel x s' rec)
  then have "nextRecord s = (Inr rec, s')" by simp
  from nextRecord_pending [OF this] show ?case by simp
qed

declare skipChildren.simps [simp del]

text \<open>The text that an element of a paragraph-text record adds to the paragraph.\<close>

fun appendElement :: "gostring list \<Rightarrow> ParaTextElement \<Rightarrow> gostring list" where
  "appendElement textParts (ParaTextString code v) = textParts @ [v]"
| "appendElement textParts (ParaTextLineBreak code) = textParts @ [[0x0A]]"
| "appendElement textParts (ParaTextTab code) = textParts @ [[0x09]]"
| "appendElement textParts el = textParts"

text \<open>The end of a paragraph inside a cell: the text is added to the current cell, after a
  newline when the cell has text already.\<close>

definition addCellText :: "tableBuilder \<Rightarrow> nat \<Rightarrow> gostring \<Rightarrow> tableBuilder" where
  "addCellText tb i text =
     (let c = tb_cells tb ! i;
          c1 = (if cell_Text c \<noteq> [] then c\<lparr>cell_Text := cell_Text c @ [0x0A]\<rparr> else c);
          c2 = c1\<lparr>cell_Text := cell_Text c1 @ text\<rparr>
      in tb\<lparr>tb_cells := (tb_cells tb)[i := c2]\<rparr>)"

text \<open>The case \<open>RecListHeader\<close> for a cell, with a table in progress.\<close>

definition addCell :: "tableBuilder \<Rightarrow> ListHeader \<Rightarrow> tableBuilder" where
  "addCell tb r =
     (let tb1 = (if unat (RowIndex r) + unat (RowSpan r) > tb_rows tb
                 then tb\<lparr>tb_rows := unat (RowIndex r) + unat (RowSpan r)\<rparr> else tb);
          tb2 = (if unat (ColIndex r) + unat (ColSpan r) > tb_cols tb1
                 then tb1\<lparr>tb_cols := unat (ColIndex r) + unat (ColSpan r)\<rparr> else tb1);
          cell = \<lparr>cell_Row = unat (RowIndex r), cell_Col = unat (ColIndex r),
                  cell_RowSpan = unat (RowSpan r), cell_ColSpan = unat (ColSpan r),
                  cell_Text = []\<rparr>;
          tb3 = tb2\<lparr>tb_cells := tb_cells tb2 @ [cell]\<rparr>
      in tb3\<lparr>tb_currentCell := Some (length (tb_cells tb3) - 1)\<rparr>)"

text \<open>The case \<open>RecParaCharShape, RecParaLineSeg\<close>: the paragraph is complete.\<close>

definition endParagraph :: "ContentScanner \<Rightarrow> (error + ContentNode) option \<times> ContentScanner" where
  "endParagraph s =
     (case currentPara s of
        None \<Rightarrow> (None, s)
      | Some textParts \<Rightarrow>
          (let text = joinTextParts textParts; s1 = s\<lparr>currentPara := None\<rparr>
           in case currentTable s1 of
                None \<Rightarrow> (Some (Inr (Paragraph text)), s1)
              | Some tb \<Rightarrow>
                  (case tb_currentCell tb of
                     None \<Rightarrow> (Some (Inr (Paragraph text)), s1)
                   | Some i \<Rightarrow> (None, s1\<lparr>currentTable := Some (addCellText tb i text)\<rparr>))))"

text \<open>The \<open>switch r := rec.(type)\<close> of \<open>Next\<close>: \<open>Some\<close> of what \<open>Next\<close> returns, or \<open>None\<close> when
  the loop goes on. The error of \<open>skipChildren\<close> is dropped, as the source drops it.\<close>

fun process :: "ContentScanner \<Rightarrow> Rec \<Rightarrow> (error + ContentNode) option \<times> ContentScanner" where
  "process s (RecParaHeader b) = (None, s\<lparr>currentPara := Some []\<rparr>)"
| "process s (RecParaText b els) =
     (case currentPara s of
        Some textParts \<Rightarrow> (None, s\<lparr>currentPara := Some (foldl appendElement textParts els)\<rparr>)
      | None \<Rightarrow> (None, s))"
| "process s (RecCtrlHeader b ctrlID d) =
     (if ctrlID = 0x74626c20 then (None, s\<lparr>tableLevel := Level b\<rparr>)
      else if ctrlID = 0x67736f20 then (Some (Inr Image), snd (skipChildren s (Level b)))
      else (None, snd (skipChildren s (Level b))))"
| "process s (RecTable b d rowCount colCount) =
     (case currentTable s of
        None \<Rightarrow>
          (None, s\<lparr>currentTable := Some \<lparr>tb_rows = unat rowCount, tb_cols = unat colCount,
                     tb_cells = [], tb_currentCell = None, tb_tableLevel = tableLevel s\<rparr>\<rparr>)
      | Some tb \<Rightarrow> (None, s))"
| "process s (RecListHeader r) =
     (case currentTable s of
        Some tb \<Rightarrow> (if IsCell r then (None, s\<lparr>currentTable := Some (addCell tb r)\<rparr>) else (None, s))
      | None \<Rightarrow> (None, s))"
| "process s (RecParaCharShape b) = endParagraph s"
| "process s (RecParaLineSeg b) = endParagraph s"
| "process s (RecScaffold b) = (None, s)"
| "process s (RecUnknown b d) = (None, s)"

text \<open>One iteration of the loop of \<open>Next\<close>. Where \<open>finishTable\<close> is called a table is in
  progress, so its result is not nil.\<close>

definition emitTable :: "ContentScanner \<Rightarrow> (error + ContentNode) option \<times> ContentScanner" where
  "emitTable s =
     (case finishTable s of
        (Some table, s') \<Rightarrow> (Some (Inr (TableNode table)), s')
      | (None, s') \<Rightarrow> (Some (Inr (TableNode \<lparr>tbl_Rows = 0, tbl_Cols = 0, tbl_Cells = []\<rparr>)), s'))"

definition Next_iter :: "ContentScanner \<Rightarrow> (error + ContentNode) option \<times> ContentScanner" where
  "Next_iter s =
     (case nextRecord s of
        (Inl err, s1) \<Rightarrow>
          (case currentTable s1 of
             Some tb \<Rightarrow> emitTable s1
           | None \<Rightarrow> (Some (Inl err), s1))
      | (Inr rec, s1) \<Rightarrow>
          (case currentTable s1 of
             Some tb \<Rightarrow>
               (if Lvl rec \<le> tb_tableLevel tb
                then (case emitTable s1 of (res, s2) \<Rightarrow> (res, putBack s2 rec))
                else process s1 rec)
           | None \<Rightarrow> process s1 rec))"

lemma putBack_pending:
  "bufferedRec s = None \<Longrightarrow> pendingRecords (putBack s rec) = Suc (pendingRecords s)"
  by (simp add: putBack_def pendingRecords_def)

lemma skipChildren_pending: "pendingRecords (snd (skipChildren s parentLevel)) \<le> pendingRecords s"
proof (induction s parentLevel rule: skipChildren.induct)
  case (1 s parentLevel)
  show ?case
  proof (cases "nextRecord s")
    case (Pair res s')
    show ?thesis
    proof (cases res)
      case (Inl err)
      with Pair show ?thesis
        by (subst skipChildren.simps)
           (auto simp add: nextRecord_def pendingRecords_def split: option.splits list.splits)
    next
      case (Inr rec)
      note nr = Pair [unfolded Inr]
      show ?thesis
      proof (cases "Lvl rec \<le> parentLevel")
        case True
        then have "skipChildren s parentLevel = (None, putBack s' rec)"
          using nr by (subst skipChildren.simps) simp
        then show ?thesis
          using nextRecord_pending [OF nr] putBack_pending [OF nextRecord_unbuffered [OF nr]]
          by simp
      next
        case False
        then have "skipChildren s parentLevel = skipChildren s' parentLevel"
          using nr by (subst skipChildren.simps) simp
        then show ?thesis
          using "1.IH" [OF nr [symmetric] refl False] nextRecord_pending [OF nr] by simp
      qed
    qed
  qed
qed

lemma endParagraph_pending: "pendingRecords (snd (endParagraph s)) = pendingRecords s"
  by (simp add: endParagraph_def pendingRecords_def Let_def split: option.splits)

lemma process_pending: "pendingRecords (snd (process s rec)) \<le> pendingRecords s"
proof (cases rec)
  case (RecCtrlHeader b ctrlID d)
  then show ?thesis using skipChildren_pending [of s "Level b"]
    by (simp add: pendingRecords_def)
qed (simp_all add: endParagraph_pending, simp_all add: pendingRecords_def split: option.splits)

lemma emitTable_Some: "\<exists>res. fst (emitTable s) = Some res"
  by (simp add: emitTable_def finishTable_def split: option.splits)

lemma Next_iter_pending:
  assumes "Next_iter s = (None, s')"
  shows "pendingRecords s' < pendingRecords s"
proof (cases "nextRecord s")
  case (Pair res s1)
  show ?thesis
  proof (cases res)
    case (Inl err)
    with Pair assms emitTable_Some [of s1] show ?thesis
      by (auto simp add: Next_iter_def split: option.splits)
  next
    case (Inr rec)
    note nr = Pair [unfolded Inr]
    have "s' = snd (process s1 rec)"
      using assms nr emitTable_Some [of s1]
      by (auto simp add: Next_iter_def split: option.splits if_splits prod.splits)
    then show ?thesis
      using process_pending [of s1 rec] nextRecord_pending [OF nr] by simp
  qed
qed

text \<open>\<open>Next\<close>: the loop runs until an iteration returns.\<close>

function Next :: "ContentScanner \<Rightarrow> (error + ContentNode) \<times> ContentScanner" where
  "Next s =
     (case Next_iter s of
        (Some res, s') \<Rightarrow> (res, s')
      | (None, s') \<Rightarrow> Next s')"
  by pat_completeness auto
termination
proof (relation "measure pendingRecords", goal_cases)
  case 1
  show ?case by simp
next
  case (2 s x s')
  then have "Next_iter s = (None, s')" by simp
  from Next_iter_pending [OF this] show ?case by simp
qed

declare Next.simps [simp del]

section \<open>The assembly state machine: table termination\<close>

lemma Next_returns: "Next_iter s = (Some res, s') \<Longrightarrow> Next s = (res, s')"
  by (subst Next.simps) simp

lemma Next_continues: "Next_iter s = (None, s') \<Longrightarrow> Next s = Next s'"
  by (subst Next.simps) simp

lemma emitTable_Some_tb:
  "currentTable s = Some tb \<Longrightarrow>
   emitTable s = (Some (Inr (TableNode \<lparr>tbl_Rows = tb_rows tb, tbl_Cols = tb_cols tb,
                                           tbl_Cells = tb_cells tb\<rparr>)),
                  s\<lparr>currentTable := None\<rparr>)"
  by (simp add: emitTable_def finishTable_def)

lemma nextRecord_keeps:
  "nextRecord s = (res, s1) \<Longrightarrow>
   currentTable s1 = currentTable s \<and> currentPara s1 = currentPara s \<and> tableLevel s1 = tableLevel s"
  by (auto simp add: nextRecord_def split: option.splits list.splits)

lemma nextRecord_exhausted:
  "bufferedRec s = None \<Longrightarrow> source s = [] \<Longrightarrow> nextRecord s = (Inl EOF, s)"
  by (simp add: nextRecord_def)

lemma Next_exhausted_idle:
  assumes "bufferedRec s = None" "source s = []" "currentTable s = None"
  shows "Next s = (Inl EOF, s)"
proof -
  have "Next_iter s = (Some (Inl EOF), s)"
    using assms by (simp add: Next_iter_def nextRecord_exhausted)
  then show ?thesis by (rule Next_returns)
qed

lemma Next_exhausted_funpow:
  assumes "bufferedRec s = None" "source s = []" "currentTable s = None"
  shows "((\<lambda>x. snd (Next x)) ^^ n) s = s"
  by (induction n) (simp_all add: Next_exhausted_idle [OF assms])

text \<open>C1. With a table in progress: when the next record's level is at most the table's
  start level, \<open>Next\<close> returns the table node with the rows, columns and cells accumulated so
  far, the record is in the lookahead buffer afterwards, and the next \<open>nextRecord\<close> returns it
  again; when the record stream has ended, \<open>Next\<close> returns that table node, and every later
  call returns \<open>io.EOF\<close> and leaves the scanner as it is.\<close>

theorem Next_finishes_table:
  "currentTable s = Some tb \<Longrightarrow>
   (\<forall>rec s1. nextRecord s = (Inr rec, s1) \<and> Lvl rec \<le> tb_tableLevel tb \<longrightarrow>
      Next s = (Inr (TableNode \<lparr>tbl_Rows = tb_rows tb, tbl_Cols = tb_cols tb,
                                 tbl_Cells = tb_cells tb\<rparr>),
                s1\<lparr>bufferedRec := Some rec, currentTable := None\<rparr>) \<and>
      nextRecord (snd (Next s)) = (Inr rec, s1\<lparr>currentTable := None\<rparr>)) \<and>
   (bufferedRec s = None \<and> source s = [] \<longrightarrow>
      Next s = (Inr (TableNode \<lparr>tbl_Rows = tb_rows tb, tbl_Cols = tb_cols tb,
                                 tbl_Cells = tb_cells tb\<rparr>),
                s\<lparr>currentTable := None\<rparr>) \<and>
      (\<forall>n. Next (((\<lambda>x. snd (Next x)) ^^ Suc n) s) = (Inl EOF, s\<lparr>currentTable := None\<rparr>)))"
proof (intro conjI allI impI)
  assume tb: "currentTable s = Some tb"
  {
    fix rec s1
    assume a: "nextRecord s = (Inr rec, s1) \<and> Lvl rec \<le> tb_tableLevel tb"
    then have nr: "nextRecord s = (Inr rec, s1)" and lvl: "Lvl rec \<le> tb_tableLevel tb"
      by simp_all
    have tb1: "currentTable s1 = Some tb"
      using nextRecord_keeps [OF nr] tb by simp
    have unb: "bufferedRec s1 = None" by (rule nextRecord_unbuffered [OF nr])
    have "Next_iter s = (Some (Inr (TableNode \<lparr>tbl_Rows = tb_rows tb, tbl_Cols = tb_cols tb,
                                 tbl_Cells = tb_cells tb\<rparr>)),
                putBack (s1\<lparr>currentTable := None\<rparr>) rec)"
      using nr lvl tb1 by (simp add: Next_iter_def emitTable_Some_tb)
    then show n: "Next s = (Inr (TableNode \<lparr>tbl_Rows = tb_rows tb, tbl_Cols = tb_cols tb,
                                 tbl_Cells = tb_cells tb\<rparr>),
                s1\<lparr>bufferedRec := Some rec, currentTable := None\<rparr>)"
      by (simp add: Next_returns putBack_def)
    show "nextRecord (snd (Next s)) = (Inr rec, s1\<lparr>currentTable := None\<rparr>)"
      using unb by (simp add: n nextRecord_def)
  }
  {
    assume e: "bufferedRec s = None \<and> source s = []"
    have "Next_iter s = (Some (Inr (TableNode \<lparr>tbl_Rows = tb_rows tb, tbl_Cols = tb_cols tb,
                                 tbl_Cells = tb_cells tb\<rparr>)), s\<lparr>currentTable := None\<rparr>)"
      using e tb by (simp add: Next_iter_def nextRecord_exhausted emitTable_Some_tb)
    then show n: "Next s = (Inr (TableNode \<lparr>tbl_Rows = tb_rows tb, tbl_Cols = tb_cols tb,
                                 tbl_Cells = tb_cells tb\<rparr>), s\<lparr>currentTable := None\<rparr>)"
      by (rule Next_returns)
    fix n
    let ?s' = "s\<lparr>currentTable := None\<rparr>"
    have idle: "bufferedRec ?s' = None" "source ?s' = []" "currentTable ?s' = None"
      using e by simp_all
    have "((\<lambda>x. snd (Next x)) ^^ Suc n) s = ((\<lambda>x. snd (Next x)) ^^ n) (snd (Next s))"
      by (simp only: funpow_Suc_right comp_apply)
    also have "\<dots> = ((\<lambda>x. snd (Next x)) ^^ n) ?s'" by (simp add: n)
    also have "\<dots> = ?s'" by (rule Next_exhausted_funpow [OF idle])
    finally show "Next (((\<lambda>x. snd (Next x)) ^^ Suc n) s) = (Inl EOF, ?s')"
      by (simp add: Next_exhausted_idle [OF idle])
  }
qed

theorem Next_finishes_table_witness:
  "currentTable \<lparr>source = [Inr (RecParaHeader \<lparr>TagID = 66, Level = 0, Size = 0\<rparr>)],
      bufferedRec = None, currentPara = None,
      currentTable = Some \<lparr>tb_rows = 1, tb_cols = 1, tb_cells = [], tb_currentCell = None,
                             tb_tableLevel = 1\<rparr>,
      tableLevel = 1\<rparr>
     = Some \<lparr>tb_rows = 1, tb_cols = 1, tb_cells = [], tb_currentCell = None, tb_tableLevel = 1\<rparr> \<and>
   Next \<lparr>source = [Inr (RecParaHeader \<lparr>TagID = 66, Level = 0, Size = 0\<rparr>)],
      bufferedRec = None, currentPara = None,
      currentTable = Some \<lparr>tb_rows = 1, tb_cols = 1, tb_cells = [], tb_currentCell = None,
                             tb_tableLevel = 1\<rparr>,
      tableLevel = 1\<rparr>
     = (Inr (TableNode \<lparr>tbl_Rows = 1, tbl_Cols = 1, tbl_Cells = []\<rparr>),
        \<lparr>source = [], bufferedRec = Some (RecParaHeader \<lparr>TagID = 66, Level = 0, Size = 0\<rparr>),
         currentPara = None, currentTable = None, tableLevel = 1\<rparr>) \<and>
   Next \<lparr>source = [], bufferedRec = None, currentPara = None,
      currentTable = Some \<lparr>tb_rows = 1, tb_cols = 1, tb_cells = [], tb_currentCell = None,
                             tb_tableLevel = 1\<rparr>,
      tableLevel = 1\<rparr>
     = (Inr (TableNode \<lparr>tbl_Rows = 1, tbl_Cols = 1, tbl_Cells = []\<rparr>),
        \<lparr>source = [], bufferedRec = None, currentPara = None, currentTable = None,
         tableLevel = 1\<rparr>)"
proof -
  let ?tb = "\<lparr>tb_rows = 1, tb_cols = 1, tb_cells = [], tb_currentCell = None, tb_tableLevel = 1\<rparr>"
  let ?rec = "RecParaHeader \<lparr>TagID = 66, Level = 0, Size = 0\<rparr>"
  let ?s = "\<lparr>source = [Inr ?rec], bufferedRec = None, currentPara = None,
             currentTable = Some ?tb, tableLevel = 1\<rparr>"
  let ?e = "\<lparr>source = [], bufferedRec = None, currentPara = None,
             currentTable = Some ?tb, tableLevel = 1\<rparr>"
  have a: "currentTable ?s = Some ?tb" by simp
  have b: "currentTable ?e = Some ?tb" by simp
  have nr: "nextRecord ?s = (Inr ?rec, ?e) \<and> Lvl ?rec \<le> tb_tableLevel ?tb"
    by (simp add: nextRecord_def Lvl_def)
  from Next_finishes_table [OF a] nr
  have 1: "Next ?s = (Inr (TableNode \<lparr>tbl_Rows = tb_rows ?tb, tbl_Cols = tb_cols ?tb,
                                 tbl_Cells = tb_cells ?tb\<rparr>),
                ?e\<lparr>bufferedRec := Some ?rec, currentTable := None\<rparr>)"
    by blast
  from Next_finishes_table [OF b]
  have 2: "Next ?e = (Inr (TableNode \<lparr>tbl_Rows = tb_rows ?tb, tbl_Cols = tb_cols ?tb,
                                 tbl_Cells = tb_cells ?tb\<rparr>), ?e\<lparr>currentTable := None\<rparr>)"
    by simp
  from 1 2 show ?thesis by simp
qed

section \<open>The assembly state machine: table bounds\<close>

text \<open>The size that the table-size record declared for the table in progress is not kept by
  the scanner. It is followed here beside the scanner: \<open>declared_iter\<close> is its value after one
  iteration of the loop of \<open>Next\<close>, the counts of the \<open>RecTable\<close> record when the iteration
  instantiates a builder from it and the value before otherwise; \<open>Next_declared\<close> is its
  value when \<open>Next\<close> returns.\<close>

definition declared_iter :: "nat \<times> nat \<Rightarrow> ContentScanner \<Rightarrow> nat \<times> nat" where
  "declared_iter g s =
     (case nextRecord s of
        (Inr (RecTable b d rowCount colCount), s1) \<Rightarrow>
          (if currentTable s1 = None then (unat rowCount, unat colCount) else g)
      | (res, s1) \<Rightarrow> g)"

function Next_declared :: "nat \<times> nat \<Rightarrow> ContentScanner \<Rightarrow> nat \<times> nat" where
  "Next_declared g s =
     (case Next_iter s of
        (Some res, s') \<Rightarrow> g
      | (None, s') \<Rightarrow> Next_declared (declared_iter g s) s')"
  by pat_completeness auto
termination
proof (relation "measure (\<lambda>(g, s). pendingRecords s)", goal_cases)
  case 1
  show ?case by simp
next
  case (2 g s x s')
  then have "Next_iter s = (None, s')" by simp
  from Next_iter_pending [OF this] show ?case by simp
qed

declare Next_declared.simps [simp del]

text \<open>The bounds invariant, of a table node and of the builder in progress.\<close>

definition cells_within :: "nat \<Rightarrow> nat \<Rightarrow> Cell list \<Rightarrow> bool" where
  "cells_within rows cols cells \<longleftrightarrow>
     list_all (\<lambda>c. cell_Row c + cell_RowSpan c \<le> rows \<and> cell_Col c + cell_ColSpan c \<le> cols) cells"

definition table_ok :: "nat \<times> nat \<Rightarrow> Table \<Rightarrow> bool" where
  "table_ok g t \<longleftrightarrow>
     fst g \<le> tbl_Rows t \<and> snd g \<le> tbl_Cols t \<and> cells_within (tbl_Rows t) (tbl_Cols t) (tbl_Cells t)"

definition builder_ok :: "nat \<times> nat \<Rightarrow> tableBuilder \<Rightarrow> bool" where
  "builder_ok g tb \<longleftrightarrow>
     fst g \<le> tb_rows tb \<and> snd g \<le> tb_cols tb \<and> cells_within (tb_rows tb) (tb_cols tb) (tb_cells tb)"

definition scanner_ok :: "nat \<times> nat \<Rightarrow> ContentScanner \<Rightarrow> bool" where
  "scanner_ok g s \<longleftrightarrow> (case currentTable s of None \<Rightarrow> True | Some tb \<Rightarrow> builder_ok g tb)"

lemma cells_within_mono:
  "cells_within rows cols cells \<Longrightarrow> rows \<le> rows' \<Longrightarrow> cols \<le> cols' \<Longrightarrow>
   cells_within rows' cols' cells"
  by (auto simp add: cells_within_def list_all_iff)

lemma addCell_ok: "builder_ok g tb \<Longrightarrow> builder_ok g (addCell tb r)"
  by (auto simp add: builder_ok_def addCell_def Let_def cells_within_def list_all_iff)

lemma cells_within_update:
  assumes "cells_within rows cols cells"
    and "i < length cells \<Longrightarrow>
         cell_Row c' + cell_RowSpan c' \<le> rows \<and> cell_Col c' + cell_ColSpan c' \<le> cols"
  shows "cells_within rows cols (cells[i := c'])"
proof (cases "i < length cells")
  case False
  then have "cells[i := c'] = cells" by (intro list_update_beyond) simp
  then show ?thesis using assms(1) by (simp only:)
next
  case True
  have "set (cells[i := c']) \<subseteq> insert c' (set cells)"
    by (rule set_update_subset_insert)
  then show ?thesis
    using assms(1) assms(2) [OF True] by (auto simp add: cells_within_def list_all_iff)
qed

lemma cells_within_nth:
  "cells_within rows cols cells \<Longrightarrow> i < length cells \<Longrightarrow>
   cell_Row (cells ! i) + cell_RowSpan (cells ! i) \<le> rows \<and>
   cell_Col (cells ! i) + cell_ColSpan (cells ! i) \<le> cols"
  by (simp add: cells_within_def list_all_length)

lemma addCellText_ok: "builder_ok g tb \<Longrightarrow> builder_ok g (addCellText tb i text)"
  unfolding builder_ok_def addCellText_def Let_def
  by (auto intro!: cells_within_update dest: cells_within_nth)

lemma skipChildren_keeps:
  "currentTable (snd (skipChildren s parentLevel)) = currentTable s"
proof (induction s parentLevel rule: skipChildren.induct)
  case (1 s parentLevel)
  show ?case
  proof (cases "nextRecord s")
    case (Pair res s')
    note keep = nextRecord_keeps [OF Pair]
    show ?thesis
    proof (cases res)
      case (Inl err)
      with Pair keep show ?thesis by (subst skipChildren.simps) simp
    next
      case (Inr rec)
      note nr = Pair [unfolded Inr]
      show ?thesis
      proof (cases "Lvl rec \<le> parentLevel")
        case True
        with nr keep show ?thesis by (subst skipChildren.simps) (simp add: putBack_def)
      next
        case False
        with nr keep "1.IH" [OF nr [symmetric] refl False] show ?thesis
          by (subst skipChildren.simps) simp
      qed
    qed
  qed
qed

lemma endParagraph_ok:
  "scanner_ok g s \<Longrightarrow> scanner_ok g (snd (endParagraph s))"
  by (auto simp add: scanner_ok_def endParagraph_def Let_def addCellText_ok split: option.splits)

lemma endParagraph_no_table: "fst (endParagraph s) \<noteq> Some (Inr (TableNode t))"
  by (simp add: endParagraph_def Let_def split: option.splits)

lemma process_no_table: "fst (process s rec) \<noteq> Some (Inr (TableNode t))"
  by (cases rec) (simp_all add: endParagraph_no_table split: option.splits)

text \<open>What one record does to the invariant: a \<open>RecTable\<close> record that instantiates the builder
  sets the declared size; every other record keeps it.\<close>

definition declared_by :: "nat \<times> nat \<Rightarrow> ContentScanner \<Rightarrow> Rec \<Rightarrow> nat \<times> nat" where
  "declared_by g s rec =
     (case rec of
        RecTable b d rowCount colCount \<Rightarrow>
          (if currentTable s = None then (unat rowCount, unat colCount) else g)
      | _ \<Rightarrow> g)"

lemma process_ok:
  "scanner_ok g s \<Longrightarrow> scanner_ok (declared_by g s rec) (snd (process s rec))"
proof (cases rec)
  case (RecCtrlHeader b ctrlID d)
  assume "scanner_ok g s"
  then show ?thesis
    using skipChildren_keeps [of s "Level b"]
    by (simp add: RecCtrlHeader declared_by_def scanner_ok_def)
next
  case (RecTable b d rowCount colCount)
  assume "scanner_ok g s"
  then show ?thesis
    by (auto simp add: RecTable declared_by_def scanner_ok_def builder_ok_def cells_within_def
        split: option.splits)
next
  case (RecListHeader r)
  assume "scanner_ok g s"
  then show ?thesis
    by (auto simp add: RecListHeader declared_by_def scanner_ok_def addCell_ok split: option.splits)
qed (simp_all add: declared_by_def endParagraph_ok, simp_all add: scanner_ok_def split: option.splits)

lemma declared_iter_eq:
  "nextRecord s = (Inr rec, s1) \<Longrightarrow> declared_iter g s = declared_by g s1 rec"
  by (cases rec) (simp_all add: declared_iter_def declared_by_def)

lemma declared_iter_Inl:
  "nextRecord s = (Inl err, s1) \<Longrightarrow> declared_iter g s = g"
  by (simp add: declared_iter_def)

lemma Next_iter_ok:
  assumes ok: "scanner_ok g s" and it: "Next_iter s = (res, s')"
  shows "scanner_ok (declared_iter g s) s' \<and>
         (\<forall>t. res = Some (Inr (TableNode t)) \<longrightarrow> table_ok g t \<and> declared_iter g s = g)"
proof (cases "nextRecord s")
  case (Pair r s1)
  note keep = nextRecord_keeps [OF Pair]
  have ok1: "scanner_ok g s1" using ok keep by (simp add: scanner_ok_def)
  show ?thesis
  proof (cases r)
    case (Inl err)
    note nr = Pair [unfolded Inl]
    show ?thesis
    proof (cases "currentTable s1")
      case None
      with nr it ok1 show ?thesis
        by (auto simp add: Next_iter_def declared_iter_Inl [OF nr])
    next
      case (Some tb)
      with nr it ok1 show ?thesis
        by (auto simp add: Next_iter_def declared_iter_Inl [OF nr] emitTable_Some_tb
            scanner_ok_def builder_ok_def table_ok_def)
    qed
  next
    case (Inr rec)
    note nr = Pair [unfolded Inr]
    show ?thesis
    proof (cases "\<exists>tb. currentTable s1 = Some tb \<and> Lvl rec \<le> tb_tableLevel tb")
      case True
      then obtain tb where tb: "currentTable s1 = Some tb" "Lvl rec \<le> tb_tableLevel tb"
        by blast
      have d: "declared_iter g s = g"
        using tb by (cases rec) (simp_all add: declared_iter_eq [OF nr] declared_by_def)
      from nr it ok1 tb show ?thesis
        by (auto simp add: Next_iter_def d emitTable_Some_tb putBack_def
            scanner_ok_def builder_ok_def table_ok_def)
    next
      case False
      then have p: "process s1 rec = (res, s')"
        using nr it by (auto simp add: Next_iter_def split: option.splits)
      have "scanner_ok (declared_by g s1 rec) (snd (process s1 rec))"
        by (rule process_ok [OF ok1])
      then show ?thesis
        using p process_no_table [of s1 rec] by (auto simp add: declared_iter_eq [OF nr])
    qed
  qed
qed

lemma declared_iter_returns:
  assumes "Next_iter s = (Some x, s')"
  shows "declared_iter g s = g"
proof (cases "nextRecord s")
  case (Pair r s1)
  show ?thesis
  proof (cases r)
    case (Inl err)
    with Pair show ?thesis by (simp add: declared_iter_Inl)
  next
    case (Inr rec)
    note nr = Pair [unfolded Inr]
    show ?thesis
    proof (cases "\<exists>b d rc cc. rec = RecTable b d rc cc \<and> currentTable s1 = None")
      case True
      then have "Next_iter s = process s1 rec" "fst (process s1 rec) = None"
        using nr by (auto simp add: Next_iter_def)
      with assms show ?thesis by simp
    next
      case False
      then show ?thesis
        by (cases rec) (auto simp add: declared_iter_eq [OF nr] declared_by_def)
    qed
  qed
qed

lemma Next_ok:
  "scanner_ok g s \<Longrightarrow> Next s = (res, s') \<Longrightarrow>
   scanner_ok (Next_declared g s) s' \<and>
   (\<forall>t. res = Inr (TableNode t) \<longrightarrow> table_ok (Next_declared g s) t)"
proof (induction s arbitrary: g rule: Next.induct)
  case (1 s)
  show ?case
  proof (cases "Next_iter s")
    case (Pair r s1)
    show ?thesis
    proof (cases r)
      case None
      note it = Pair [unfolded None]
      have n: "Next s = Next s1" by (rule Next_continues [OF it])
      have d: "Next_declared g s = Next_declared (declared_iter g s) s1"
        using it by (subst Next_declared.simps) simp
      have ok1: "scanner_ok (declared_iter g s) s1"
        using Next_iter_ok [OF "1.prems"(1) it] by simp
      from "1.IH" [OF it [symmetric] refl ok1] "1.prems"(2) show ?thesis
        by (simp add: n d)
    next
      case (Some x)
      note it = Pair [unfolded Some]
      have n: "Next s = (x, s1)" by (rule Next_returns [OF it])
      have d: "Next_declared g s = g"
        using it by (subst Next_declared.simps) simp
      from Next_iter_ok [OF "1.prems"(1) it] "1.prems"(2) declared_iter_returns [OF it, of g]
      show ?thesis
        by (auto simp add: n d)
    qed
  qed
qed

text \<open>C9. Every table node that \<open>Next\<close> returns satisfies the bounds invariant. Started with no
  table in progress, or with a builder that is within the bounds, \<open>Next\<close> leaves the builder
  within the bounds, and a table node it returns has at least the rows and columns that the
  table-size record declared and holds every cell's row plus row span within its rows and
  column plus column span within its columns. The declared size is that of the \<open>RecTable\<close>
  record from which the builder was instantiated, with those counts and no cells.\<close>

theorem Next_table_bounds:
  "currentTable s = None \<or> scanner_ok g s \<Longrightarrow> Next s = (res, s') \<Longrightarrow>
   scanner_ok (Next_declared g s) s' \<and>
   (\<forall>t. res = Inr (TableNode t) \<longrightarrow>
      fst (Next_declared g s) \<le> tbl_Rows t \<and> snd (Next_declared g s) \<le> tbl_Cols t \<and>
      (\<forall>c \<in> set (tbl_Cells t).
         cell_Row c + cell_RowSpan c \<le> tbl_Rows t \<and> cell_Col c + cell_ColSpan c \<le> tbl_Cols t)) \<and>
   (\<forall>b d rowCount colCount s1.
      nextRecord s = (Inr (RecTable b d rowCount colCount), s1) \<and> currentTable s = None \<longrightarrow>
      declared_iter g s = (unat rowCount, unat colCount) \<and>
      Next_iter s = (None, s1\<lparr>currentTable := Some \<lparr>tb_rows = unat rowCount, tb_cols = unat colCount,
                       tb_cells = [], tb_currentCell = None, tb_tableLevel = tableLevel s1\<rparr>\<rparr>))"
proof (intro conjI allI impI)
  assume h: "currentTable s = None \<or> scanner_ok g s" and n: "Next s = (res, s')"
  from h have ok: "scanner_ok g s" by (auto simp add: scanner_ok_def)
  from Next_ok [OF ok n] show "scanner_ok (Next_declared g s) s'" by simp
  {
    fix t assume "res = Inr (TableNode t)"
    with Next_ok [OF ok n] have t: "table_ok (Next_declared g s) t" by simp
    then show "fst (Next_declared g s) \<le> tbl_Rows t" "snd (Next_declared g s) \<le> tbl_Cols t"
      by (simp_all add: table_ok_def)
    from t show "\<forall>c \<in> set (tbl_Cells t).
         cell_Row c + cell_RowSpan c \<le> tbl_Rows t \<and> cell_Col c + cell_ColSpan c \<le> tbl_Cols t"
      by (simp add: table_ok_def cells_within_def list_all_iff)
  }
  {
    fix b d rowCount colCount s1
    assume a: "nextRecord s = (Inr (RecTable b d rowCount colCount), s1) \<and> currentTable s = None"
    then have nr: "nextRecord s = (Inr (RecTable b d rowCount colCount), s1)"
      and none: "currentTable s1 = None"
      using nextRecord_keeps [of s "Inr (RecTable b d rowCount colCount)" s1] by simp_all
    show "declared_iter g s = (unat rowCount, unat colCount)"
      using none by (simp add: declared_iter_eq [OF nr] declared_by_def)
    show "Next_iter s = (None, s1\<lparr>currentTable := Some \<lparr>tb_rows = unat rowCount,
            tb_cols = unat colCount, tb_cells = [], tb_currentCell = None,
            tb_tableLevel = tableLevel s1\<rparr>\<rparr>)"
      using nr none by (simp add: Next_iter_def)
  }
qed

text \<open>A table control, its table-size record declaring 1 row and 2 columns, and one cell at
  column 1 spanning 2 columns: the table returned at the end of the stream has 3 columns.\<close>

definition example_stream :: ContentScanner where
  "example_stream =
     \<lparr>source = [Inr (RecCtrlHeader \<lparr>TagID = 71, Level = 1, Size = 4\<rparr> 0x74626c20 [0x20, 0x6c, 0x62, 0x74]),
                 Inr (RecTable \<lparr>TagID = 77, Level = 2, Size = 0\<rparr> [] 1 2),
                 Inr (RecListHeader \<lparr>lh_hdr = \<lparr>TagID = 72, Level = 2, Size = 0\<rparr>, IsCell = True,
                        ParaCount = 1, Property = 0, ColIndex = 1, RowIndex = 0,
                        ColSpan = 2, RowSpan = 1\<rparr>)],
       bufferedRec = None, currentPara = None, currentTable = None, tableLevel = 0\<rparr>"

lemma Next_example_stream:
  "Next example_stream
     = (Inr (TableNode \<lparr>tbl_Rows = 1, tbl_Cols = 3,
               tbl_Cells = [\<lparr>cell_Row = 0, cell_Col = 1, cell_RowSpan = 1, cell_ColSpan = 2,
                             cell_Text = []\<rparr>]\<rparr>),
        \<lparr>source = [], bufferedRec = None, currentPara = None, currentTable = None, tableLevel = 1\<rparr>)"
  by code_simp

lemma Next_declared_example_stream: "Next_declared (0, 0) example_stream = (1, 2)"
  by code_simp

theorem Next_table_bounds_witness:
  "currentTable example_stream = None \<and>
   Next example_stream
     = (Inr (TableNode \<lparr>tbl_Rows = 1, tbl_Cols = 3,
               tbl_Cells = [\<lparr>cell_Row = 0, cell_Col = 1, cell_RowSpan = 1, cell_ColSpan = 2,
                             cell_Text = []\<rparr>]\<rparr>),
        \<lparr>source = [], bufferedRec = None, currentPara = None, currentTable = None, tableLevel = 1\<rparr>) \<and>
   Next_declared (0, 0) example_stream = (1, 2) \<and>
   fst (Next_declared (0, 0) example_stream) \<le> (3 :: nat)"
proof -
  have a: "currentTable example_stream = None \<or> scanner_ok (0, 0) example_stream"
    by (simp add: example_stream_def)
  from Next_table_bounds [OF a Next_example_stream]
  have "snd (Next_declared (0, 0) example_stream) \<le> 3 \<and> fst (Next_declared (0, 0) example_stream) \<le> 1"
    by simp
  then show ?thesis
    using Next_example_stream Next_declared_example_stream
    by (simp add: example_stream_def)
qed

section \<open>Table layout and rendering (internal/render/table.go)\<close>

text \<open>\<open>render.Cell\<close> and \<open>render.Table\<close>. The integer fields are Go \<open>int\<close>s; the model takes
  them as natural numbers, which is what \<open>renderTable\<close> passes on from the document's cells
  (negative rows, columns and spans are outside the model). \<open>Cells\<close> is a slice of pointers:
  a cell's identity is its index in the slice.\<close>

record RenderCell =
  rc_Row :: nat
  rc_Col :: nat
  rc_Text :: gostring
  rc_RowSpan :: nat
  rc_ColSpan :: nat

record RenderTable =
  rt_Rows :: nat
  rt_Cols :: nat
  rt_Cells :: "RenderCell list"

text \<open>\<open>Layout\<close>. \<open>cellOwner\<close> holds the owning cell's index, or \<open>None\<close> for nil. The map
  \<open>cellLines\<close> holds, for every cell, its text split at newlines: it is the function
  \<open>cellLines\<close> below.\<close>

record Layout =
  l_table :: RenderTable
  cellOwner :: "nat option list list"
  colWidths :: "nat list"
  rowHeights :: "nat list"

text \<open>A run-time panic of Go: an index out of range.\<close>

datatype panic = IndexOutOfRange

abbreviation (input) ch_nl :: rune where "ch_nl \<equiv> 0x0A"
abbreviation (input) ch_space :: rune where "ch_space \<equiv> 0x20"
abbreviation (input) ch_plus :: rune where "ch_plus \<equiv> 0x2B"
abbreviation (input) ch_minus :: rune where "ch_minus \<equiv> 0x2D"
abbreviation (input) ch_bar :: rune where "ch_bar \<equiv> 0x7C"

text \<open>Modelled from the spec: \<open>displayWidth\<close> calls \<open>runewidth.StringWidth\<close> of the package
  go-runewidth, which is not part of the repository. The specification gives the display width
  of a string as the sum of each character's contribution of 0, 1 or 2 columns; the
  contribution of a character is the parameter \<open>rw\<close>.\<close>

definition displayWidth :: "(rune \<Rightarrow> nat) \<Rightarrow> gostring \<Rightarrow> nat" where
  "displayWidth rw s = sum_list (map rw s)"

text \<open>\<open>strings.Split(s, "\n")\<close>: the pieces between newlines, at least one.\<close>

fun split_nl :: "gostring \<Rightarrow> gostring list" where
  "split_nl [] = [[]]"
| "split_nl (c # cs) =
     (let rest = split_nl cs
      in if c = ch_nl then [] # rest else (c # hd rest) # tl rest)"

definition cellLines :: "RenderCell \<Rightarrow> gostring list" where
  "cellLines cell = split_nl (rc_Text cell)"

text \<open>The loops of \<open>buildLayout\<close> that mark the grid positions of one cell: \<open>r\<close> and \<open>c\<close> run
  while they are below the span and the position is inside the table.\<close>

definition markCell :: "RenderTable \<Rightarrow> nat option list list \<Rightarrow> nat \<Rightarrow> RenderCell \<Rightarrow> nat option list list" where
  "markCell t grid i cell =
     foldl (\<lambda>g r.
         foldl (\<lambda>g' c. g'[rc_Row cell + r := (g' ! (rc_Row cell + r))[rc_Col cell + c := Some i]])
           g [0..<min (rc_ColSpan cell) (rt_Cols t - rc_Col cell)])
       grid [0..<min (rc_RowSpan cell) (rt_Rows t - rc_Row cell)]"

definition buildOwner :: "RenderTable \<Rightarrow> nat option list list" where
  "buildOwner t =
     foldl (\<lambda>g (i, cell). markCell t g i cell)
       (replicate (rt_Rows t) (replicate (rt_Cols t) None))
       (zip [0..<length (rt_Cells t)] (rt_Cells t))"

text \<open>The maximum display width over the lines of a cell, as both loops of
  \<open>computeColWidths\<close> compute it.\<close>

definition maxLineWidth :: "(rune \<Rightarrow> nat) \<Rightarrow> gostring list \<Rightarrow> nat" where
  "maxLineWidth rw lines =
     foldl (\<lambda>maxWidth line. if displayWidth rw line > maxWidth then displayWidth rw line else maxWidth)
       0 lines"

text \<open>The body of the first loop of \<open>computeColWidths\<close>, for one cell.\<close>

definition singleStep :: "(rune \<Rightarrow> nat) \<Rightarrow> nat list \<Rightarrow> RenderCell \<Rightarrow> panic + nat list" where
  "singleStep rw widths cell =
     (if rc_ColSpan cell = 1
      then (let maxWidth = maxLineWidth rw (cellLines cell)
            in if rc_Col cell < length widths
               then Inr (if maxWidth > widths ! rc_Col cell then widths[rc_Col cell := maxWidth]
                         else widths)
               else Inl IndexOutOfRange)
      else Inr widths)"

text \<open>The distribution loop \<open>for c := 0; c < cell.ColSpan; c++\<close> of the second loop.\<close>

definition distStep :: "nat \<Rightarrow> nat \<Rightarrow> nat \<Rightarrow> nat list \<Rightarrow> nat \<Rightarrow> nat list" where
  "distStep col perCol remainder w c =
     (let w1 = w[col + c := w ! (col + c) + perCol]
      in if c < remainder then w1[col + c := w1 ! (col + c) + 1] else w1)"

definition distribute :: "nat list \<Rightarrow> nat \<Rightarrow> nat \<Rightarrow> nat \<Rightarrow> nat list" where
  "distribute widths col span extra =
     (let perCol = extra div span; remainder = extra mod span
      in foldl (distStep col perCol remainder) widths [0..<span])"

text \<open>The body of the second loop of \<open>computeColWidths\<close>, for one cell. Summing the widths of
  the spanned columns panics when the span leaves the table.\<close>

definition spanStep :: "(rune \<Rightarrow> nat) \<Rightarrow> nat list \<Rightarrow> RenderCell \<Rightarrow> panic + nat list" where
  "spanStep rw widths cell =
     (if rc_ColSpan cell > 1
      then (let maxWidth = maxLineWidth rw (cellLines cell)
            in if rc_Col cell + rc_ColSpan cell \<le> length widths
               then (let totalWidth = sum_list (take (rc_ColSpan cell) (drop (rc_Col cell) widths))
                     in if maxWidth > totalWidth
                        then Inr (distribute widths (rc_Col cell) (rc_ColSpan cell)
                                    (maxWidth - totalWidth))
                        else Inr widths)
               else Inl IndexOutOfRange)
      else Inr widths)"

text \<open>A loop over the cells whose body may panic.\<close>

fun foldCells :: "(nat list \<Rightarrow> RenderCell \<Rightarrow> panic + nat list) \<Rightarrow> nat list \<Rightarrow> RenderCell list
    \<Rightarrow> panic + nat list" where
  "foldCells f widths [] = Inr widths"
| "foldCells f widths (cell # cells) =
     (case f widths cell of Inl e \<Rightarrow> Inl e | Inr widths' \<Rightarrow> foldCells f widths' cells)"

definition computeColWidths :: "(rune \<Rightarrow> nat) \<Rightarrow> RenderTable \<Rightarrow> panic + nat list" where
  "computeColWidths rw t =
     (case foldCells (singleStep rw) (replicate (rt_Cols t) 1) (rt_Cells t) of
        Inl e \<Rightarrow> Inl e
      | Inr widths \<Rightarrow> foldCells (spanStep rw) widths (rt_Cells t))"

definition computeRowHeights :: "RenderTable \<Rightarrow> nat list" where
  "computeRowHeights t =
     map (\<lambda>row. foldl (\<lambda>maxLines cell.
                     if rc_Row cell = row \<and> length (cellLines cell) > maxLines
                     then length (cellLines cell) else maxLines)
                 1 (rt_Cells t))
       [0..<rt_Rows t]"

definition buildLayout :: "(rune \<Rightarrow> nat) \<Rightarrow> RenderTable \<Rightarrow> panic + Layout" where
  "buildLayout rw t =
     (case computeColWidths rw t of
        Inl e \<Rightarrow> Inl e
      | Inr widths \<Rightarrow>
          Inr \<lparr>l_table = t, cellOwner = buildOwner t, colWidths = widths,
               rowHeights = computeRowHeights t\<rparr>)"

text \<open>The border decisions. \<open>rowIdx\<close> is \<open>-1\<close> for the top border.\<close>

definition needsHorizontalLine :: "Layout \<Rightarrow> int \<Rightarrow> nat \<Rightarrow> bool" where
  "needsHorizontalLine l rowIdx colIdx =
     (if rowIdx = -1 then True
      else if rowIdx = int (rt_Rows (l_table l)) - 1 then True
      else cellOwner l ! nat rowIdx ! colIdx \<noteq> cellOwner l ! nat (rowIdx + 1) ! colIdx)"

definition needsVerticalLine :: "Layout \<Rightarrow> int \<Rightarrow> nat \<Rightarrow> bool" where
  "needsVerticalLine l rowIdx colIdx =
     (if rowIdx = -1 then True
      else if rowIdx = int (rt_Rows (l_table l)) - 1 then True
      else cellOwner l ! nat rowIdx ! colIdx \<noteq> cellOwner l ! nat rowIdx ! (colIdx + 1)
           \<or> cellOwner l ! nat (rowIdx + 1) ! colIdx \<noteq> cellOwner l ! nat (rowIdx + 1) ! (colIdx + 1))"

definition renderBorderLine :: "Layout \<Rightarrow> int \<Rightarrow> gostring" where
  "renderBorderLine l rowIdx =
     [ch_plus]
     @ concat (map (\<lambda>colIdx.
          replicate (colWidths l ! colIdx + 2)
            (if needsHorizontalLine l rowIdx colIdx then ch_minus else ch_space)
          @ (if int colIdx < int (rt_Cols (l_table l)) - 1
             then [if needsVerticalLine l rowIdx colIdx then ch_plus else ch_minus]
             else []))
        [0..<rt_Cols (l_table l)])
     @ [ch_plus]"

text \<open>The loop \<open>for colIdx < l.table.Cols\<close> of \<open>renderContentLine\<close>, from column \<open>colIdx\<close> with
  the builder's content \<open>sb\<close>. A cell of column span 0 would keep \<open>colIdx\<close> where it is: the
  loop may not end, and then there is no result. Summing the widths of the spanned columns
  panics when the span leaves the table.\<close>

partial_function (option) contentFrom ::
    "(rune \<Rightarrow> nat) \<Rightarrow> Layout \<Rightarrow> nat \<Rightarrow> nat \<Rightarrow> nat \<Rightarrow> gostring \<Rightarrow> (panic + gostring) option" where
  "contentFrom rw l rowIdx displayRowIdx colIdx sb =
     (if colIdx < rt_Cols (l_table l)
      then (case cellOwner l ! rowIdx ! colIdx of
              None \<Rightarrow> contentFrom rw l rowIdx displayRowIdx (colIdx + 1) sb
            | Some i \<Rightarrow>
                (let owner = rt_Cells (l_table l) ! i
                 in if rc_Col owner \<noteq> colIdx
                    then contentFrom rw l rowIdx displayRowIdx (colIdx + 1) sb
                    else (let colspan = rc_ColSpan owner
                          in if colIdx + colspan > length (colWidths l) then Some (Inl IndexOutOfRange)
                             else (let totalContentWidth =
                                         sum_list (take colspan (drop colIdx (colWidths l)))
                                         + (if colspan > 1 then (colspan - 1) * 3 else 0);
                                       lines = cellLines owner;
                                       text = (if rc_Row owner = rowIdx
                                               then (if displayRowIdx < length lines
                                                     then lines ! displayRowIdx else [])
                                               else []);
                                       width = displayWidth rw text;
                                       padding = totalContentWidth - width;
                                       nextColIdx = colIdx + colspan;
                                       field = [ch_space] @ text @ replicate padding ch_space
                                               @ [ch_space]
                                               @ (if nextColIdx < rt_Cols (l_table l)
                                                  then [ch_bar] else [])
                                   in contentFrom rw l rowIdx displayRowIdx nextColIdx
                                        (sb @ field)))))
      else Some (Inr (sb @ [ch_bar])))"

declare contentFrom.simps [code]

definition renderContentLine ::
    "(rune \<Rightarrow> nat) \<Rightarrow> Layout \<Rightarrow> nat \<Rightarrow> nat \<Rightarrow> (panic + gostring) option" where
  "renderContentLine rw l rowIdx displayRowIdx = contentFrom rw l rowIdx displayRowIdx 0 [ch_bar]"

text \<open>\<open>Layout.render\<close>: the builder's content after the rows from \<open>rowIdx\<close> on, and after the
  display lines of a row from \<open>displayRowIdx\<close> on.\<close>

fun renderLines ::
    "(rune \<Rightarrow> nat) \<Rightarrow> Layout \<Rightarrow> nat \<Rightarrow> nat list \<Rightarrow> gostring \<Rightarrow> (panic + gostring) option" where
  "renderLines rw l rowIdx [] sb = Some (Inr sb)"
| "renderLines rw l rowIdx (displayRowIdx # ds) sb =
     (case renderContentLine rw l rowIdx displayRowIdx of
        None \<Rightarrow> None
      | Some (Inl e) \<Rightarrow> Some (Inl e)
      | Some (Inr line) \<Rightarrow> renderLines rw l rowIdx ds (sb @ line @ [ch_nl]))"

fun renderRows ::
    "(rune \<Rightarrow> nat) \<Rightarrow> Layout \<Rightarrow> nat list \<Rightarrow> gostring \<Rightarrow> (panic + gostring) option" where
  "renderRows rw l [] sb = Some (Inr sb)"
| "renderRows rw l (rowIdx # rs) sb =
     (case renderLines rw l rowIdx [0..<rowHeights l ! rowIdx] sb of
        None \<Rightarrow> None
      | Some (Inl e) \<Rightarrow> Some (Inl e)
      | Some (Inr sb') \<Rightarrow>
          renderRows rw l rs (sb' @ renderBorderLine l (int rowIdx) @ [ch_nl]))"

definition render :: "(rune \<Rightarrow> nat) \<Rightarrow> Layout \<Rightarrow> (panic + gostring) option" where
  "render rw l =
     renderRows rw l [0..<rt_Rows (l_table l)] (renderBorderLine l (-1) @ [ch_nl])"

text \<open>\<open>Table.Render\<close>.\<close>

definition Render :: "(rune \<Rightarrow> nat) \<Rightarrow> RenderTable \<Rightarrow> (panic + gostring) option" where
  "Render rw t =
     (case buildLayout rw t of
        Inl e \<Rightarrow> Some (Inl e)
      | Inr layout \<Rightarrow> render rw layout)"

section \<open>Column widths: distributing the shortfall of a spanning cell\<close>
















text \<open>The column widths of the table of \<open>TestMultilineWithColSpan\<close>, with every character one
  column wide: the cell \<open>Header\<close> over two columns of width 1 needs 6, so each grows by 2.\<close>

lemma computeColWidths_example:
  "computeColWidths (\<lambda>r. 1)
     \<lparr>rt_Rows = 2, rt_Cols = 3,
      rt_Cells = [\<lparr>rc_Row = 0, rc_Col = 0,
                    rc_Text = [72, 101, 97, 100, 101, 114, 10, 76, 105, 110, 101, 50],
                    rc_RowSpan = 1, rc_ColSpan = 2\<rparr>,
                  \<lparr>rc_Row = 0, rc_Col = 2, rc_Text = [67], rc_RowSpan = 1, rc_ColSpan = 1\<rparr>,
                  \<lparr>rc_Row = 1, rc_Col = 0, rc_Text = [65], rc_RowSpan = 1, rc_ColSpan = 1\<rparr>,
                  \<lparr>rc_Row = 1, rc_Col = 1, rc_Text = [66], rc_RowSpan = 1, rc_ColSpan = 1\<rparr>,
                  \<lparr>rc_Row = 1, rc_Col = 2, rc_Text = [67], rc_RowSpan = 1, rc_ColSpan = 1\<rparr>]\<rparr>
   = Inr [3, 3, 1]"
  by code_simp

end
